theory Spec2Isabelle
  imports Main "HOL-Library.List_Lexorder"
begin

section \<open>JavaScript strings\<close>

text \<open>
  A JavaScript string is a sequence of UTF-16 code units; \<open>length\<close>, \<open>substring\<close>,
  \<open>lastIndexOf\<close> and the regular expressions of \<^verbatim>\<open>server/routes.ts\<close> (none carries the
  \<^verbatim>\<open>u\<close> flag) all count and compare code units. A code unit is modelled as a natural
  number, so that the zero-width space U+200B (8203) is a single element.
\<close>

type_synonym jstring = "nat list"

definition str :: "string \<Rightarrow> jstring" where
  "str s = map of_char s"

text \<open>
  \<^verbatim>\<open>WhiteSpace\<close> and \<^verbatim>\<open>LineTerminator\<close> of ECMAScript: what \<^verbatim>\<open>String.prototype.trim\<close>
  strips and what \<^verbatim>\<open>\s\<close> matches.
\<close>

definition isWhiteSpace :: "nat \<Rightarrow> bool" where
  "isWhiteSpace c \<longleftrightarrow>
     c = 9 \<or> c = 10 \<or> c = 11 \<or> c = 12 \<or> c = 13 \<or> c = 32 \<or> c = 160 \<or> c = 5760
     \<or> (8192 \<le> c \<and> c \<le> 8202) \<or> c = 8232 \<or> c = 8233 \<or> c = 8239 \<or> c = 8287
     \<or> c = 12288 \<or> c = 65279"

definition trim :: "jstring \<Rightarrow> jstring" where
  "trim s = rev (dropWhile isWhiteSpace (rev (dropWhile isWhiteSpace s)))"

text \<open>
  \<^verbatim>\<open>s.lastIndexOf(c, fromIndex)\<close> for a search string of one code unit \<open>c\<close>: the greatest
  index \<open>k \<le> fromIndex\<close> with \<open>s[k] = c\<close>, or \<open>-1\<close>.
\<close>

definition lastIndexOf :: "jstring \<Rightarrow> nat \<Rightarrow> nat \<Rightarrow> int" where
  "lastIndexOf s c fromIndex =
     (let p = take (Suc fromIndex) s
      in if c \<in> set p
         then int (length p - Suc (length (takeWhile (\<lambda>x. x \<noteq> c) (rev p))))
         else - 1)"

text \<open>
  Truthiness of a possibly undefined string, and \<^verbatim>\<open>a || b\<close> on such values: the empty
  string is falsy, like \<^verbatim>\<open>undefined\<close> and \<^verbatim>\<open>null\<close>.
\<close>

definition truthy :: "jstring option \<Rightarrow> bool" where
  "truthy x = (case x of None \<Rightarrow> False | Some s \<Rightarrow> s \<noteq> [])"

definition orElse :: "jstring option \<Rightarrow> jstring option \<Rightarrow> jstring option" where
  "orElse a b = (if truthy a then a else b)"

definition orNull :: "jstring option \<Rightarrow> jstring option" where
  "orNull a = (if truthy a then a else None)"

definition orString :: "jstring option \<Rightarrow> jstring \<Rightarrow> jstring" where
  "orString a d = (case a of None \<Rightarrow> d | Some s \<Rightarrow> if s = [] then d else s)"


section \<open>Regular expressions\<close>

text \<open>
  The regular expressions of \<^verbatim>\<open>routes.ts\<close> are kept as syntax trees and run by a
  backtracking matcher with the priorities of ECMAScript: the left alternative first, a
  greedy quantifier longest first, an optional part tried before it is skipped. Every
  \<^verbatim>\<open>*\<close> and \<^verbatim>\<open>+\<close> of the source is applied to a character class, so \<open>Star\<close> and \<open>Plus\<close>
  take a class. \<open>Grp n\<close> is the \<open>n\<close>-th capture group; a group that took no part in the
  match stays undefined.
\<close>

datatype rx = Eps | Chr nat | Cls "nat \<Rightarrow> bool" | Bol | Eol
  | Seq rx rx | Alt rx rx | Star "nat \<Rightarrow> bool" | Plus "nat \<Rightarrow> bool" | Opt rx | Grp nat rx

type_synonym caps = "nat \<Rightarrow> jstring option"

text \<open>The matcher's state: the index in the input, the input from there on, the captures.\<close>

type_synonym mstate = "nat \<times> jstring \<times> caps"

text \<open>
  \<^verbatim>\<open>Canonicalize\<close> under the \<^verbatim>\<open>i\<close> flag, for the comparison with a pattern character
  below 128 (every pattern character of the source is): only the letters a-z change, and
  no code unit from 128 on is mapped below 128.
\<close>

definition canon :: "bool \<Rightarrow> nat \<Rightarrow> nat" where
  "canon icase c = (if icase \<and> 97 \<le> c \<and> c \<le> 122 then c - 32 else c)"

fun rxm :: "bool \<Rightarrow> rx \<Rightarrow> mstate \<Rightarrow> (mstate \<Rightarrow> mstate option) \<Rightarrow> mstate option" where
  "rxm ic Eps st k = k st"
| "rxm ic (Chr c) (i, s, cs) k =
     (case s of [] \<Rightarrow> None
      | x # xs \<Rightarrow> if canon ic x = canon ic c then k (Suc i, xs, cs) else None)"
| "rxm ic (Cls p) (i, s, cs) k =
     (case s of [] \<Rightarrow> None
      | x # xs \<Rightarrow> if p x then k (Suc i, xs, cs) else None)"
| "rxm ic Bol (i, s, cs) k = (if i = 0 then k (i, s, cs) else None)"
| "rxm ic Eol (i, s, cs) k = (if s = [] then k (i, s, cs) else None)"
| "rxm ic (Seq a b) st k = rxm ic a st (\<lambda>st'. rxm ic b st' k)"
| "rxm ic (Alt a b) st k =
     (case rxm ic a st k of Some r \<Rightarrow> Some r | None \<Rightarrow> rxm ic b st k)"
| "rxm ic (Star p) (i, s, cs) k =
     (case s of [] \<Rightarrow> k (i, s, cs)
      | x # xs \<Rightarrow>
          if p x then
            (case rxm ic (Star p) (Suc i, xs, cs) k of
               Some r \<Rightarrow> Some r
             | None \<Rightarrow> k (i, s, cs))
          else k (i, s, cs))"
| "rxm ic (Plus p) (i, s, cs) k =
     (case s of [] \<Rightarrow> None
      | x # xs \<Rightarrow> if p x then rxm ic (Star p) (Suc i, xs, cs) k else None)"
| "rxm ic (Opt a) st k =
     (case rxm ic a st k of Some r \<Rightarrow> Some r | None \<Rightarrow> k st)"
| "rxm ic (Grp n a) (i, s, cs) k =
     rxm ic a (i, s, cs) (\<lambda>(j, t, cs'). k (j, t, cs'(n \<mapsto> take (j - i) s)))"

declare rxm.simps(8) [simp del]

text \<open>A literal run of pattern characters, and a sequence of parts.\<close>

fun lit :: "string \<Rightarrow> rx" where
  "lit [] = Eps"
| "lit (c # cs) = Seq (Chr (of_char c)) (lit cs)"

fun seqs :: "rx list \<Rightarrow> rx" where
  "seqs [] = Eps"
| "seqs (r # rs) = Seq r (seqs rs)"

text \<open>
  \<^verbatim>\<open>s.match(re)\<close> and \<^verbatim>\<open>re.exec(s)\<close> without the \<^verbatim>\<open>g\<close> flag: the first start index, from
  the left, at which the pattern matches; the result is the captures (group 0 is the
  matched text).
\<close>

fun search :: "bool \<Rightarrow> rx \<Rightarrow> nat \<Rightarrow> jstring \<Rightarrow> caps option" where
  "search ic r i [] =
     (case rxm ic r (i, [], Map.empty) Some of
        Some (j, t, cs) \<Rightarrow> Some (cs(0 \<mapsto> []))
      | None \<Rightarrow> None)"
| "search ic r i (x # xs) =
     (case rxm ic r (i, x # xs, Map.empty) Some of
        Some (j, t, cs) \<Rightarrow> Some (cs(0 \<mapsto> take (length (x # xs) - length t) (x # xs)))
      | None \<Rightarrow> search ic r (Suc i) xs)"

text \<open>
  \<^verbatim>\<open>s.replace(re, rep)\<close> with the \<^verbatim>\<open>g\<close> flag and a replacement without \<^verbatim>\<open>$\<close>: every
  match, found from left to right, is replaced; after an empty match the scan moves on by
  one code unit.
\<close>

function replace_all :: "bool \<Rightarrow> rx \<Rightarrow> jstring \<Rightarrow> nat \<Rightarrow> jstring \<Rightarrow> jstring" where
  "replace_all ic r rep i s =
     (case rxm ic r (i, s, Map.empty) Some of
        Some (j, t, cs) \<Rightarrow>
          if length t < length s then rep @ replace_all ic r rep j t
          else (case s of [] \<Rightarrow> rep | x # xs \<Rightarrow> rep @ x # replace_all ic r rep (Suc i) xs)
      | None \<Rightarrow> (case s of [] \<Rightarrow> [] | x # xs \<Rightarrow> x # replace_all ic r rep (Suc i) xs))"
  by pat_completeness auto
termination
  by (relation "measure (\<lambda>(ic, r, rep, i, s). length s)") auto

declare replace_all.simps [simp del]

text \<open>
  The successive matches of a \<^verbatim>\<open>g\<close> pattern, each with its captures, as
  \<^verbatim>\<open>s.match(re)\<close> collects them and as a \<^verbatim>\<open>while ((m = re.exec(s)) !== null)\<close> loop
  visits them. (After an empty match \<^verbatim>\<open>match\<close> moves on by one code unit, which is what
  the model does; the patterns run in an \<^verbatim>\<open>exec\<close> loop in the source start with a
  literal and have no empty match.)
\<close>

function matches :: "bool \<Rightarrow> rx \<Rightarrow> nat \<Rightarrow> jstring \<Rightarrow> caps list" where
  "matches ic r i s =
     (case rxm ic r (i, s, Map.empty) Some of
        Some (j, t, cs) \<Rightarrow>
          cs(0 \<mapsto> take (length s - length t) s) #
          (if length t < length s then matches ic r j t
           else (case s of [] \<Rightarrow> [] | x # xs \<Rightarrow> matches ic r (Suc i) xs))
      | None \<Rightarrow> (case s of [] \<Rightarrow> [] | x # xs \<Rightarrow> matches ic r (Suc i) xs))"
  by pat_completeness auto
termination
  by (relation "measure (\<lambda>(ic, r, i, s). length s)") auto

declare matches.simps [simp del]


section \<open>Helpers of routes.ts\<close>

text \<open>\<^verbatim>\<open>/<[^>]*>/g\<close>\<close>

definition tagRegex :: rx where
  "tagRegex = seqs [Chr 60, Star (\<lambda>c. c \<noteq> 62), Chr 62]"

text \<open>
  \<^verbatim>\<open>extractSummary(content, maxLength = 200)\<close>: \<^verbatim>\<open>null\<close> for an undefined or empty
  content; otherwise the tags are removed and the text is trimmed; a text longer than
  \<open>maxLength\<close> is cut at \<^verbatim>\<open>text.lastIndexOf(" ", maxLength)\<close> when that index is positive
  and at \<open>maxLength\<close> otherwise, and \<^verbatim>\<open>"..."\<close> is appended.
\<close>

definition extractSummary :: "jstring option \<Rightarrow> nat \<Rightarrow> jstring option" where
  "extractSummary content maxLength =
     (if \<not> truthy content then None
      else
        let text = trim (replace_all False tagRegex [] 0 (the content)) in
        if length text \<le> maxLength then Some text
        else
          let lastSpace = lastIndexOf text 32 maxLength in
          Some (take (if lastSpace > 0 then nat lastSpace else maxLength) text @ str ''...''))"


section \<open>The URL normaliser\<close>


text \<open>The class \<^verbatim>\<open>[\s\u200B]\<close>: white space and the zero-width space.\<close>

definition urlSpace :: "nat \<Rightarrow> bool" where
  "urlSpace c \<longleftrightarrow> isWhiteSpace c \<or> c = 8203"

text \<open>\<^verbatim>\<open>/^[\s\u200B]+|[\s\u200B]+$/g\<close>\<close>

definition stripRegex :: rx where
  "stripRegex = Alt (Seq Bol (Plus urlSpace)) (Seq (Plus urlSpace) Eol)"

text \<open>\<^verbatim>\<open>/^https?:\/\//i\<close>\<close>

definition protocolRegex :: rx where
  "protocolRegex = seqs [Bol, lit ''http'', Opt (Chr 115), lit ''://'']"

text \<open>
  \<^verbatim>\<open>normalizeUrl(input)\<close>: trim, remove the matches of the first pattern, and prepend
  \<^verbatim>\<open>https://\<close> when the second pattern does not match.
\<close>

definition normalizeUrl :: "jstring \<Rightarrow> jstring" where
  "normalizeUrl input =
     (let url = trim input;
          url = replace_all False stripRegex [] 0 url
      in if search True protocolRegex 0 url = None then str ''https://'' @ url else url)"

text \<open>
  The words of the specification, to compare \<open>normalizeUrl\<close> with: stripping the code units
  of a class from both ends of a string, and starting with a given prefix up to the case
  of the letters a-z.
\<close>

definition dropEnd :: "(nat \<Rightarrow> bool) \<Rightarrow> jstring \<Rightarrow> jstring" where
  "dropEnd p s = rev (dropWhile p (rev s))"

definition stripBoth :: "(nat \<Rightarrow> bool) \<Rightarrow> jstring \<Rightarrow> jstring" where
  "stripBoth p s = dropEnd p (dropWhile p s)"

definition startsWithCI :: "jstring \<Rightarrow> jstring \<Rightarrow> bool" where
  "startsWithCI s p \<longleftrightarrow>
     length p \<le> length s \<and> map (canon True) (take (length p) s) = map (canon True) p"


section \<open>Summaries\<close>

text \<open>
  What removing the matches of \<^verbatim>\<open>/<[^>]*>/g\<close> amounts to, in words: scanning from the
  left, a \<^verbatim>\<open><\<close> that has a \<^verbatim>\<open>>\<close> somewhere after it is removed together with
  everything up to the first such \<^verbatim>\<open>>\<close>; every other code unit is kept.
  \<open>extractSummary\<close> itself runs the pattern; the two are proved equal below.
\<close>

function stripTags :: "jstring \<Rightarrow> jstring" where
  "stripTags [] = []"
| "stripTags (x # xs) =
     (if x = 60 \<and> 62 \<in> set xs then stripTags (tl (dropWhile (\<lambda>c. c \<noteq> 62) xs))
      else x # stripTags xs)"
  by pat_completeness auto
termination
proof (relation "measure length")
  show "wf (measure length)" by simp
next
  fix x :: nat and xs :: jstring
  assume "x = 60 \<and> 62 \<in> set xs"
  have "length (tl (dropWhile (\<lambda>c. c \<noteq> 62) xs)) \<le> length (dropWhile (\<lambda>c. c \<noteq> 62) xs)"
    by simp
  also have "\<dots> \<le> length xs" by (rule length_dropWhile_le)
  finally show "(tl (dropWhile (\<lambda>c. c \<noteq> 62) xs), x # xs) \<in> measure length" by simp
next
  fix x :: nat and xs :: jstring
  show "(xs, x # xs) \<in> measure length" by simp
qed

text \<open>
  Example texts: a short one with a leading space; 250 code units whose only white space
  is a tab at index 100; a short one with tags; 250 code units with a space at index 100.
\<close>

definition padded :: jstring where
  "padded = str '' a''"

definition tabbed :: jstring where
  "tabbed = replicate 100 97 @ 9 # replicate 149 97"

definition shortDoc :: jstring where
  "shortDoc = str ''<b>Hi</b> there ''"

definition longDoc :: jstring where
  "longDoc = replicate 100 97 @ 32 # replicate 149 97"


section \<open>The schema\<close>

text \<open>
  The tables of the schema. A primary key (\<^verbatim>\<open>gen_random_uuid()\<close>) is modelled as a
  natural number taken from a counter of the store; the field \<^verbatim>\<open>id\<close> is called \<open>ident\<close>.
  A nullable column is an \<open>option\<close>. A \<^verbatim>\<open>Date\<close> is a reading of the clock, the date
  \<^verbatim>\<open>new Date(s)\<close> denoted by a string the runtime can parse, or the Invalid Date that
  \<^verbatim>\<open>new Date(s)\<close> is for any other string.
\<close>

datatype jsdate = At nat | DateOf jstring | InvalidDate

text \<open>The column \<^verbatim>\<open>integer("error_count")\<close> holds a 32-bit signed integer.\<close>

definition int4 :: "int \<Rightarrow> bool" where
  "int4 v \<longleftrightarrow> - 2147483648 \<le> v \<and> v \<le> 2147483647"

record category =
  ident :: nat
  name :: jstring
  color :: "jstring option"
  order :: "int option"

record feed =
  ident :: nat
  title :: jstring
  url :: jstring
  siteUrl :: "jstring option"
  description :: "jstring option"
  favicon :: "jstring option"
  categoryId :: "nat option"
  lastFetched :: "jsdate option"
  errorCount :: "int option"
  isActive :: "bool option"

record article =
  ident :: nat
  feedId :: nat
  title :: jstring
  url :: jstring
  content :: "jstring option"
  summary :: "jstring option"
  author :: "jstring option"
  imageUrl :: "jstring option"
  publishedAt :: "jsdate option"
  isRead :: "bool option"
  isBookmarked :: "bool option"
  guid :: jstring

text \<open>
  An item and a feed as the feed parser delivers them; every field may be undefined. The
  parser delivers the guid of an item as a string or, for some feeds, as an object.
\<close>

datatype jsval = Str jstring | Obj

record item =
  guid :: "jsval option"
  link :: "jstring option"
  title :: "jstring option"
  content_encoded :: "jstring option"
  content :: "jstring option"
  contentSnippet :: "jstring option"
  creator :: "jstring option"
  author :: "jstring option"
  enclosure_url :: "jstring option"
  pubDate :: "jstring option"

record parsed_feed =
  title :: "jstring option"
  link :: "jstring option"
  description :: "jstring option"
  items :: "item list option"

text \<open>
  The result of \<^verbatim>\<open>parseFeed(url)\<close>, which catches every error of the parser:
  \<^verbatim>\<open>{ success: true, feed }\<close> or \<^verbatim>\<open>{ success: false, error }\<close>.
\<close>

datatype parse_result = Success parsed_feed | Failure jstring


section \<open>storage.ts\<close>

text \<open>
  The database behind \<^verbatim>\<open>DatabaseStorage\<close>: three tables, each a list of rows, and the
  counter the next primary key comes from. A call of the storage returns or throws; it
  throws when the driver or the database refuses a value: a guid that is not a string in
  a lookup, an Invalid Date in an insert, a count outside the 32-bit range in an update.
  A failure of the database connection itself is outside the model.
\<close>

datatype 'a call = Returns 'a | Throws

record store =
  feeds :: "feed list"
  articles :: "article list"
  categories :: "category list"
  nextId :: nat

definition getFeed :: "store \<Rightarrow> nat \<Rightarrow> feed option" where
  "getFeed st i = find (\<lambda>f. feed.ident f = i) (feeds st)"

definition getFeedByUrl :: "store \<Rightarrow> jstring \<Rightarrow> feed option" where
  "getFeedByUrl st u = find (\<lambda>f. feed.url f = u) (feeds st)"

text \<open>
  The object passed to \<^verbatim>\<open>updateFeed\<close>: the fields it sets. The handlers modelled here
  set \<^verbatim>\<open>lastFetched\<close> and \<^verbatim>\<open>errorCount\<close> only.
\<close>

record feed_patch =
  set_lastFetched :: "jsdate option"
  set_errorCount :: "int option"

definition applyPatch :: "feed_patch \<Rightarrow> feed \<Rightarrow> feed" where
  "applyPatch p f =
     f\<lparr>lastFetched := (case set_lastFetched p of None \<Rightarrow> lastFetched f | Some d \<Rightarrow> Some d),
       errorCount := (case set_errorCount p of None \<Rightarrow> errorCount f | Some v \<Rightarrow> Some v)\<rparr>"

text \<open>\<^verbatim>\<open>db.update(feeds).set(patch).where(eq(feeds.id, id))\<close>\<close>

definition writeFeed :: "nat \<Rightarrow> feed_patch \<Rightarrow> store \<Rightarrow> store" where
  "writeFeed i p st =
     st\<lparr>feeds := map (\<lambda>f. if feed.ident f = i then applyPatch p f else f) (feeds st)\<rparr>"

definition updateFeed :: "nat \<Rightarrow> feed_patch \<Rightarrow> store \<Rightarrow> store call" where
  "updateFeed i p st =
     (case set_errorCount p of
        Some v \<Rightarrow> if int4 v then Returns (writeFeed i p st) else Throws
      | None \<Rightarrow> Returns (writeFeed i p st))"

definition getArticleByGuid :: "store \<Rightarrow> nat \<Rightarrow> jsval \<Rightarrow> article option call" where
  "getArticleByGuid st fid g =
     (case g of
        Obj \<Rightarrow> Throws
      | Str s \<Rightarrow> Returns (find (\<lambda>a. feedId a = fid \<and> article.guid a = s) (articles st)))"

text \<open>
  \<^verbatim>\<open>db.insert(articles).values(article).returning()\<close>: the row gets a fresh primary key.
  The argument carries the other columns; its \<open>ident\<close> is overwritten.
\<close>

definition createArticle :: "article \<Rightarrow> store \<Rightarrow> store call" where
  "createArticle a st =
     (if publishedAt a = Some InvalidDate then Throws
      else Returns (st\<lparr>articles := articles st @ [a\<lparr>article.ident := nextId st\<rparr>],
                      nextId := Suc (nextId st)\<rparr>))"

text \<open>
  \<^verbatim>\<open>getFeedHealthStats\<close>: \<^verbatim>\<open>allFeeds.filter(feed => (feed.errorCount || 0) >= 3)\<close>; a
  null count and the count 0 are both falsy and read as 0.
\<close>

definition orZero :: "int option \<Rightarrow> int" where
  "orZero n = (case n of None \<Rightarrow> 0 | Some v \<Rightarrow> v)"

record health =
  totalFeeds :: nat
  failingFeeds :: nat
  feedsWithErrors :: "feed list"

definition getFeedHealthStats :: "store \<Rightarrow> health" where
  "getFeedHealthStats st =
     (let allFeeds = feeds st;
          withErrors = filter (\<lambda>f. orZero (errorCount f) \<ge> 3) allFeeds
      in \<lparr>totalFeeds = length allFeeds,
          failingFeeds = length withErrors,
          feedsWithErrors = withErrors\<rparr>)"


section \<open>Synchronising one feed\<close>

text \<open>
  \<^verbatim>\<open>item.guid || item.link || item.title || ""\<close>; an object is truthy.
\<close>

definition truthyVal :: "jsval option \<Rightarrow> bool" where
  "truthyVal x = (case x of None \<Rightarrow> False | Some Obj \<Rightarrow> True | Some (Str s) \<Rightarrow> s \<noteq> [])"

definition guidOf :: "item \<Rightarrow> jsval" where
  "guidOf it =
     (if truthyVal (item.guid it) then the (item.guid it)
      else Str (orString (orElse (item.link it) (item.title it)) []))"

definition guidString :: "jsval \<Rightarrow> jstring" where
  "guidString g = (case g of Str s \<Rightarrow> s | Obj \<Rightarrow> [])"

text \<open>
  The row passed to \<^verbatim>\<open>storage.createArticle\<close> for an item; \<open>now\<close> is the reading of the
  clock taken by \<^verbatim>\<open>new Date()\<close>, and \<open>valid s\<close> tells whether the runtime parses the
  string \<open>s\<close> as a date. (The row is built only after the lookup of the guid has returned,
  that is for a guid that is a string.)
\<close>

definition articleOf :: "(jstring \<Rightarrow> bool) \<Rightarrow> nat \<Rightarrow> nat \<Rightarrow> item \<Rightarrow> article" where
  "articleOf valid now fid it =
     \<lparr>article.ident = 0,
      feedId = fid,
      title = orString (item.title it) (str ''Untitled''),
      url = orString (item.link it) [],
      content = orNull (orElse (content_encoded it) (item.content it)),
      summary = extractSummary (orElse (contentSnippet it) (item.content it)) 200,
      author = orNull (orElse (creator it) (item.author it)),
      imageUrl = orNull (enclosure_url it),
      publishedAt =
        Some (if truthy (pubDate it)
              then (if valid (the (pubDate it)) then DateOf (the (pubDate it)) else InvalidDate)
              else At now),
      isRead = Some False,
      isBookmarked = Some False,
      guid = guidString (guidOf it)\<rparr>"

text \<open>
  How a run of statements ends: it completes, or a storage call throws; either way with
  the state reached.
\<close>

datatype 'a outcome = Done 'a | Threw 'a

fun stateOf :: "'a outcome \<Rightarrow> 'a" where
  "stateOf (Done x) = x"
| "stateOf (Threw x) = x"

text \<open>
  The item loop, written three times in the source (adding a feed, refreshing, importing)
  with the same body: the items are taken one after the other, in the order delivered;
  an item whose \<open>(feedId, guid)\<close> is found is skipped, otherwise its article is created.
  The second component counts the articles created (\<^verbatim>\<open>totalNewArticles++\<close> in the
  refresh loop). A call that throws ends the loop.
\<close>

fun insertItems ::
  "(jstring \<Rightarrow> bool) \<Rightarrow> nat \<Rightarrow> nat \<Rightarrow> item list \<Rightarrow> store \<times> nat \<Rightarrow> (store \<times> nat) outcome" where
  "insertItems valid now fid [] (st, n) = Done (st, n)"
| "insertItems valid now fid (it # its) (st, n) =
     (case getArticleByGuid st fid (guidOf it) of
        Throws \<Rightarrow> Threw (st, n)
      | Returns (Some existingArticle) \<Rightarrow> insertItems valid now fid its (st, n)
      | Returns None \<Rightarrow>
          (case createArticle (articleOf valid now fid it) st of
             Throws \<Rightarrow> Threw (st, n)
           | Returns st' \<Rightarrow> insertItems valid now fid its (st', Suc n)))"

definition itemsOf :: "parsed_feed \<Rightarrow> item list" where
  "itemsOf pf = (case items pf of None \<Rightarrow> [] | Some xs \<Rightarrow> xs)"

text \<open>
  The \<^verbatim>\<open>catch\<close> branch of the refresh callback:
  \<^verbatim>\<open>updateFeed(feed.id, { errorCount: (feed.errorCount || 0) + 1 })\<close>, with the count of
  the row \<open>f\<close> read at the start of the request. When this call throws too, the callback
  itself throws.
\<close>

definition countFailure :: "feed \<Rightarrow> feed_patch" where
  "countFailure f =
     \<lparr>set_lastFetched = None, set_errorCount = Some (orZero (errorCount f) + 1)\<rparr>"

definition catchBranch :: "feed \<Rightarrow> store \<times> nat \<Rightarrow> (store \<times> nat) outcome" where
  "catchBranch f sn =
     (case updateFeed (feed.ident f) (countFailure f) (fst sn) of
        Returns st' \<Rightarrow> Done (st', snd sn)
      | Throws \<Rightarrow> Threw sn)"

text \<open>
  The callback of \<^verbatim>\<open>POST /api/feeds/refresh\<close> for one feed. \<open>f\<close> is the row read by
  \<^verbatim>\<open>getFeeds()\<close> at the start of the request, \<open>result\<close> what \<^verbatim>\<open>parseFeed(feed.url)\<close>
  returned, the state is the store with the counter \<^verbatim>\<open>totalNewArticles\<close>. The body is
  one \<^verbatim>\<open>try\<close>: a failed parse counts the failure and returns; a parsed feed has its
  first 50 items inserted and then \<^verbatim>\<open>lastFetched\<close> and \<^verbatim>\<open>errorCount: 0\<close> written; a call
  that throws anywhere in it leads to the \<^verbatim>\<open>catch\<close> branch. \<open>Done\<close> is the callback
  returning, \<open>Threw\<close> the callback throwing. The callbacks of different feeds run
  interleaved at their \<^verbatim>\<open>await\<close>s; each reads and writes only the rows of its own feed,
  so one callback is modelled as running from start to end.
\<close>

definition refreshFeed ::
  "(jstring \<Rightarrow> bool) \<Rightarrow> nat \<Rightarrow> parse_result \<Rightarrow> feed \<Rightarrow> store \<times> nat \<Rightarrow> (store \<times> nat) outcome" where
  "refreshFeed valid now result f sn =
     (case result of
        Failure err \<Rightarrow>
          (case updateFeed (feed.ident f) (countFailure f) (fst sn) of
             Returns st' \<Rightarrow> Done (st', snd sn)
           | Throws \<Rightarrow> catchBranch f sn)
      | Success parsedFeed \<Rightarrow>
          (case insertItems valid now (feed.ident f) (take 50 (itemsOf parsedFeed)) sn of
             Threw sn' \<Rightarrow> catchBranch f sn'
           | Done sn' \<Rightarrow>
               (case updateFeed (feed.ident f)
                       \<lparr>set_lastFetched = Some (At now), set_errorCount = Some 0\<rparr> (fst sn') of
                  Returns st' \<Rightarrow> Done (st', snd sn')
                | Throws \<Rightarrow> catchBranch f sn')))"


section \<open>Feed discovery: the link elements of a page\<close>

text \<open>
  The part of \<^verbatim>\<open>discoverFeeds\<close> that scans the fetched page (routes.ts, lines 109-157).
  \<^verbatim>\<open>pattern1\<close> (type before href) and \<^verbatim>\<open>pattern2\<close> (href before type) are the two
  regular expressions of the source, both with the flags \<^verbatim>\<open>gi\<close>; each is run in a
  \<^verbatim>\<open>while ((match = pattern.exec(html)) !== null)\<close> loop. \<open>resolve href\<close> stands for
  \<^verbatim>\<open>new URL(href, baseUrl).toString()\<close>, which throws for some strings; a throw leaves
  the function through its \<^verbatim>\<open>catch\<close>, which returns the candidates found so far.
\<close>

definition quoteChar :: "nat \<Rightarrow> bool" where
  "quoteChar c \<longleftrightarrow> c = 34 \<or> c = 39"

definition notQuote :: "nat \<Rightarrow> bool" where
  "notQuote c \<longleftrightarrow> \<not> quoteChar c"

definition notGt :: "nat \<Rightarrow> bool" where
  "notGt c \<longleftrightarrow> c \<noteq> 62"

definition mimeRegex :: rx where
  "mimeRegex =
     Alt (seqs [lit ''application/'', Alt (lit ''rss'') (lit ''atom''), lit ''+xml''])
         (lit ''text/xml'')"

definition titleAttr :: rx where
  "titleAttr = seqs [lit ''title='', Cls quoteChar, Grp 3 (Plus notQuote), Cls quoteChar]"

definition pattern1 :: rx where
  "pattern1 =
     seqs [lit ''<link'', Plus notGt,
           lit ''type='', Cls quoteChar, Grp 1 mimeRegex, Cls quoteChar, Star notGt,
           lit ''href='', Cls quoteChar, Grp 2 (Plus notQuote), Cls quoteChar, Star notGt,
           Opt titleAttr, Star notGt, Opt (Chr 47), Chr 62]"

definition pattern2 :: rx where
  "pattern2 =
     seqs [lit ''<link'', Star notGt,
           lit ''href='', Cls quoteChar, Grp 1 (Plus notQuote), Cls quoteChar, Star notGt,
           lit ''type='', Cls quoteChar, Grp 2 mimeRegex, Cls quoteChar, Star notGt,
           Opt titleAttr, Star notGt, Opt (Chr 47), Chr 62]"

fun startsWith :: "jstring \<Rightarrow> jstring \<Rightarrow> bool" where
  "startsWith s [] = True"
| "startsWith [] (p # ps) = False"
| "startsWith (x # xs) (p # ps) = (x = p \<and> startsWith xs ps)"

fun includesStr :: "jstring \<Rightarrow> jstring \<Rightarrow> bool" where
  "includesStr [] sub = (sub = [])"
| "includesStr (x # xs) sub = (startsWith (x # xs) sub \<or> includesStr xs sub)"

record candidate =
  url :: jstring
  title :: jstring
  type :: jstring

fun scanLoop ::
  "(jstring \<Rightarrow> jstring option) \<Rightarrow> nat \<Rightarrow> nat \<Rightarrow> caps list \<Rightarrow> jstring list \<times> candidate list
     \<Rightarrow> (jstring list \<times> candidate list) outcome" where
  "scanLoop resolve gType gHref [] (processedUrls, found) = Done (processedUrls, found)"
| "scanLoop resolve gType gHref (m # ms) (processedUrls, found) =
     (let mime = the (m gType);
          href = the (m gHref);
          label = orString (m 3) (str ''RSS Feed'')
      in case (if \<not> startsWith href (str ''http'') then resolve href else Some href) of
           None \<Rightarrow> Threw (processedUrls, found)
         | Some href' \<Rightarrow>
             if href' \<notin> set processedUrls
             then scanLoop resolve gType gHref ms
                    (processedUrls @ [href'],
                     found @ [\<lparr>url = href', title = label,
                               type = (if includesStr mime (str ''atom'')
                                       then str ''Atom'' else str ''RSS'')\<rparr>])
             else scanLoop resolve gType gHref ms (processedUrls, found))"

definition linkCandidates :: "(jstring \<Rightarrow> jstring option) \<Rightarrow> jstring \<Rightarrow> candidate list outcome" where
  "linkCandidates resolve html =
     (case scanLoop resolve 1 2 (matches True pattern1 0 html) ([], []) of
        Threw (processedUrls, found) \<Rightarrow> Threw found
      | Done pf \<Rightarrow>
          (case scanLoop resolve 2 1 (matches True pattern2 0 html) pf of
             Threw (processedUrls, found) \<Rightarrow> Threw found
           | Done (processedUrls, found) \<Rightarrow> Done found))"

text \<open>
  The example of the specification: the page \<^verbatim>\<open>https://example.com/page\<close>, with the
  link element written in either order of attributes. An href that starts with a slash
  resolves against the origin of the page.
\<close>

definition resolveAtExample :: "jstring \<Rightarrow> jstring option" where
  "resolveAtExample href =
     (if startsWith href [47] then Some (str ''https://example.com'' @ href) else None)"

definition typeFirstPage :: jstring where
  "typeFirstPage = str ''<link type=\"application/rss+xml\" href=\"/feed.xml\" title=\"Blog\">''"

definition hrefFirstPage :: jstring where
  "hrefFirstPage = str ''<link href=\"/feed.xml\" type=\"application/rss+xml\" title=\"Blog\">''"

section \<open>The bounded concurrency executor\<close>

text \<open>
  \<^verbatim>\<open>mapConcurrency(items, limit, fn)\<close> (routes.ts:51-71) is an \<^verbatim>\<open>async\<close> function: its body
  runs synchronously up to an \<^verbatim>\<open>await\<close>, and every other piece of code (the call of
  \<^verbatim>\<open>fn\<close>, the two \<^verbatim>\<open>then\<close> callbacks, the continuation after an \<^verbatim>\<open>await\<close>) runs later, one
  piece at a time. The executor is therefore a transition system: a state holds the variables of
  the function and the state of every promise it created, and an event is one such piece of code
  running to completion.

  For the item admitted as number \<open>i\<close> the source creates the promise
  \<^verbatim>\<open>p = Promise.resolve().then(() => fn(item)).then(result => { results.push(result) })\<close> and
  \<^verbatim>\<open>e = p.then(() => { executing.splice(executing.indexOf(e), 1) })\<close>. Its status is
  \<^item> \<open>Queued\<close>: \<^verbatim>\<open>fn(item)\<close> has not been called yet (it is called from a \<^verbatim>\<open>then\<close> callback, not
    by the loop);
  \<^item> \<open>Running\<close>: \<^verbatim>\<open>fn(item)\<close> has been called and its promise is pending;
  \<^item> \<open>Fulfilled r\<close>: the promise of \<^verbatim>\<open>fn(item)\<close> fulfilled with \<open>r\<close>, \<open>r\<close> has been pushed on
    \<^verbatim>\<open>results\<close>, \<^verbatim>\<open>e\<close> has been spliced out of \<^verbatim>\<open>executing\<close> and is fulfilled;
  \<^item> \<open>Rejected\<close>: \<^verbatim>\<open>fn(item)\<close> threw or its promise rejected; then neither callback runs,
    \<^verbatim>\<open>p\<close> and \<^verbatim>\<open>e\<close> are rejected and \<^verbatim>\<open>e\<close> stays in \<^verbatim>\<open>executing\<close>.
\<close>

datatype 'r status = Queued | Running | Fulfilled 'r | Rejected

text \<open>
  The function itself is either running its synchronous part, suspended at
  \<^verbatim>\<open>await Promise.race(executing)\<close> or at \<^verbatim>\<open>await Promise.all(executing)\<close>, or finished: returned
  \<^verbatim>\<open>results\<close> or thrown. A suspended function remembers the promises that were in \<^verbatim>\<open>executing\<close>
  when the combinator was called (both combinators read the array once) and whether the combined
  promise is still pending (\<open>None\<close>), fulfilled (\<open>Some True\<close>) or rejected (\<open>Some False\<close>).
\<close>

datatype wait = WaitRace | WaitAll

datatype 'r ctl = Synchronous | Awaiting wait "nat list" "bool option" | Returned "'r list" | Thrown

text \<open>
  \<open>todo\<close> is the part of \<^verbatim>\<open>items\<close> the \<^verbatim>\<open>for\<close> loop has not reached, \<open>tasks\<close> the admitted items in
  the order of admission with the status of their promises, \<open>executing\<close> the array of that name
  (a promise \<^verbatim>\<open>e\<close> is named by the number of its item), \<open>results\<close> the array of that name.
\<close>

record ('a, 'r) exec =
  todo :: "'a list"
  tasks :: "('a \<times> 'r status) list"
  executing :: "nat list"
  results :: "'r list"
  main :: "'r ctl"

text \<open>
  The events: \<open>Start i\<close> is the callback \<^verbatim>\<open>() => fn(item)\<close> of item \<open>i\<close>; \<open>Fulfil i r\<close> is the
  fulfilment of the promise \<^verbatim>\<open>fn(item)\<close> returned, followed by the two callbacks chained on it;
  \<open>Reject i\<close> is its rejection (or \<^verbatim>\<open>fn\<close> throwing); \<open>Resume\<close> is the continuation of the function
  after the promise it awaits has settled.
\<close>

datatype 'r event = Start nat | Fulfil nat 'r | Reject nat | Resume

fun isFulfilled :: "'r status \<Rightarrow> bool" where
  "isFulfilled (Fulfilled r) = True"
| "isFulfilled s = False"

definition anyRejected :: "('a \<times> 'r status) list \<Rightarrow> nat list \<Rightarrow> bool" where
  "anyRejected ts snap = list_ex (\<lambda>i. i < length ts \<and> snd (ts ! i) = Rejected) snap"

definition allFulfilled :: "('a \<times> 'r status) list \<Rightarrow> nat list \<Rightarrow> bool" where
  "allFulfilled ts snap = list_all (\<lambda>i. i < length ts \<and> isFulfilled (snd (ts ! i))) snap"

text \<open>
  \<^verbatim>\<open>await Promise.race(executing)\<close>: the race is rejected at once when a promise of the array is
  already rejected, and pending otherwise (a fulfilled promise has left the array).
\<close>

definition awaitRace :: "('a, 'r) exec \<Rightarrow> ('a, 'r) exec" where
  "awaitRace s =
     s\<lparr>main := Awaiting WaitRace (executing s)
                 (if anyRejected (tasks s) (executing s) then Some False else None)\<rparr>"

text \<open>
  \<^verbatim>\<open>await Promise.all(executing)\<close>: rejected when a promise of the array is rejected, fulfilled
  when all of them are (in particular for the empty array), pending otherwise.
\<close>

definition awaitAll :: "('a, 'r) exec \<Rightarrow> ('a, 'r) exec" where
  "awaitAll s =
     s\<lparr>main := Awaiting WaitAll (executing s)
                 (if anyRejected (tasks s) (executing s) then Some False
                  else if allFulfilled (tasks s) (executing s) then Some True
                  else None)\<rparr>"

text \<open>
  The \<^verbatim>\<open>for\<close> loop from the item it has reached up to its next \<^verbatim>\<open>await\<close>: an iteration creates the
  promises of the item, pushes \<^verbatim>\<open>e\<close> and awaits the race when \<^verbatim>\<open>executing.length >= limit\<close>; after
  the last item the function awaits \<^verbatim>\<open>Promise.all\<close>. \<open>limit\<close> is an integer (the one call site,
  routes.ts:384, passes 5).
\<close>

fun forLoop :: "int \<Rightarrow> 'a list \<Rightarrow> ('a, 'r) exec \<Rightarrow> ('a, 'r) exec" where
  "forLoop limit [] s = awaitAll (s\<lparr>todo := []\<rparr>)"
| "forLoop limit (item # rest) s =
     (let s' = s\<lparr>todo := rest,
                 tasks := tasks s @ [(item, Queued)],
                 executing := executing s @ [length (tasks s)]\<rparr>
      in if limit \<le> int (length (executing s')) then awaitRace s'
         else forLoop limit rest s')"

text \<open>The call: the state in which the function first suspends.\<close>

definition mapConcurrency :: "'a list \<Rightarrow> int \<Rightarrow> ('a, 'r) exec" where
  "mapConcurrency itemList limit =
     forLoop limit itemList
       \<lparr>todo = itemList, tasks = [], executing = [], results = [], main = Synchronous\<rparr>"

text \<open>
  \<^verbatim>\<open>executing.splice(executing.indexOf(e), 1)\<close>: \<^verbatim>\<open>indexOf\<close> is -1 for a promise that is not in the
  array, and \<^verbatim>\<open>splice(-1, 1)\<close> removes the last element.
\<close>

definition spliceOut :: "nat \<Rightarrow> nat list \<Rightarrow> nat list" where
  "spliceOut i xs = (if i \<in> set xs then remove1 i xs else butlast xs)"

text \<open>
  The effect on a pending combined promise of the settling of promise \<^verbatim>\<open>e\<close> of item \<open>i\<close>: nothing
  when \<open>i\<close> is not one of the awaited promises or the combined promise has settled already.
\<close>

definition settled :: "'r ctl \<Rightarrow> nat \<Rightarrow> (wait \<Rightarrow> nat list \<Rightarrow> bool option) \<Rightarrow> 'r ctl" where
  "settled m i outcome =
     (case m of
        Awaiting w snap None \<Rightarrow> if i \<in> set snap then Awaiting w snap (outcome w snap) else m
      | _ \<Rightarrow> m)"

text \<open>
  One event; \<open>None\<close> when the event cannot happen in the state. A fulfilment settles a race, and
  settles \<^verbatim>\<open>Promise.all\<close> when it was the last one awaited; a rejection rejects either. On
  \<open>Resume\<close> after a fulfilled race the loop goes on with the next item, after a fulfilled
  \<^verbatim>\<open>Promise.all\<close> the function returns \<^verbatim>\<open>results\<close>, and after a rejected combined promise the
  \<^verbatim>\<open>await\<close> throws: there is no \<^verbatim>\<open>try\<close> in the function, so the function ends there and its
  promise is rejected.
\<close>

fun step :: "int \<Rightarrow> 'r event \<Rightarrow> ('a, 'r) exec \<Rightarrow> ('a, 'r) exec option" where
  "step limit (Start i) s =
     (if i < length (tasks s) \<and> snd (tasks s ! i) = Queued
      then Some (s\<lparr>tasks := (tasks s)[i := (fst (tasks s ! i), Running)]\<rparr>)
      else None)"
| "step limit (Fulfil i r) s =
     (if i < length (tasks s) \<and> snd (tasks s ! i) = Running
      then let ts = (tasks s)[i := (fst (tasks s ! i), Fulfilled r)]
           in Some (s\<lparr>tasks := ts,
                      results := results s @ [r],
                      executing := spliceOut i (executing s),
                      main := settled (main s) i
                                (\<lambda>w snap. case w of
                                     WaitRace \<Rightarrow> Some True
                                   | WaitAll \<Rightarrow> if allFulfilled ts snap then Some True else None)\<rparr>)
      else None)"
| "step limit (Reject i) s =
     (if i < length (tasks s) \<and> snd (tasks s ! i) = Running
      then Some (s\<lparr>tasks := (tasks s)[i := (fst (tasks s ! i), Rejected)],
                   main := settled (main s) i (\<lambda>w snap. Some False)\<rparr>)
      else None)"
| "step limit Resume s =
     (case main s of
        Awaiting w snap (Some True) \<Rightarrow>
          (case w of
             WaitRace \<Rightarrow> Some (forLoop limit (todo s) s)
           | WaitAll \<Rightarrow> Some (s\<lparr>main := Returned (results s)\<rparr>))
      | Awaiting w snap (Some False) \<Rightarrow> Some (s\<lparr>main := Thrown\<rparr>)
      | _ \<Rightarrow> None)"

text \<open>A schedule is a list of events; \<open>run\<close> is \<open>None\<close> when one of them cannot happen.\<close>

fun run :: "int \<Rightarrow> 'r event list \<Rightarrow> ('a, 'r) exec \<Rightarrow> ('a, 'r) exec option" where
  "run limit [] s = Some s"
| "run limit (e # es) s = (case step limit e s of None \<Rightarrow> None | Some s' \<Rightarrow> run limit es s')"

text \<open>The number of operations that have been started and have not settled.\<close>

definition inFlight :: "('a, 'r) exec \<Rightarrow> nat" where
  "inFlight s = length (filter (\<lambda>t. snd t = Running) (tasks s))"



definition rejected :: "('a, 'r) exec \<Rightarrow> nat \<Rightarrow> bool" where
  "rejected s i \<longleftrightarrow> i < length (tasks s) \<and> snd (tasks s ! i) = Rejected"


text \<open>
  The invariant of the executor: \<^verbatim>\<open>executing\<close> holds, once each, the promises of the admitted
  items whose operation has not fulfilled; it never holds more than \<open>max limit 1\<close> of them, and
  fewer when a race has been won; the admitted and the remaining items make up the input;
  \<^verbatim>\<open>Promise.all\<close> is awaited, and the function returns, only when no item remains.
\<close>

definition Inv :: "int \<Rightarrow> 'a list \<Rightarrow> ('a, 'r) exec \<Rightarrow> bool" where
  "Inv limit work s \<longleftrightarrow>
     distinct (executing s)
   \<and> set (executing s) = {i. i < length (tasks s) \<and> \<not> isFulfilled (snd (tasks s ! i))}
   \<and> int (length (executing s)) \<le> max limit 1
   \<and> (\<forall>snap. main s = Awaiting WaitRace snap (Some True) \<longrightarrow>
         int (length (executing s)) < max limit 1)
   \<and> map fst (tasks s) @ todo s = work
   \<and> (\<forall>snap st. main s = Awaiting WaitAll snap st \<longrightarrow>
         todo s = [] \<and> set (executing s) \<subseteq> set snap
         \<and> (st = Some True \<longrightarrow> executing s = []))
   \<and> (\<forall>rs. main s = Returned rs \<longrightarrow> todo s = [] \<and> executing s = [] \<and> rs = results s)
   \<and> length (results s) = length (filter (\<lambda>t. isFulfilled (snd t)) (tasks s))"


definition rejectingRun :: "(nat, nat) exec option" where
  "rejectingRun = run 1 [Start 0, Reject 0, Resume] (mapConcurrency [7, 8] 1)"

definition threeItems :: "(nat, nat) exec" where
  "threeItems = mapConcurrency [7, 8, 9] 2"

definition fullTrace :: "nat event list" where
  "fullTrace = [Start 0, Start 1, Fulfil 1 5, Resume, Start 2, Fulfil 0 6, Fulfil 2 4,
                Resume, Resume]"

definition fullResult :: "(nat, nat) exec" where
  "fullResult = \<lparr>todo = [], tasks = [(7, Fulfilled 6), (8, Fulfilled 5), (9, Fulfilled 4)],
                 executing = [], results = [5, 6, 4], main = Returned [5, 6, 4]\<rparr>"

definition failingTrace :: "nat event list" where
  "failingTrace = [Start 0, Start 1, Reject 0, Resume]"

definition failedResult :: "(nat, nat) exec" where
  "failedResult = \<lparr>todo = [9], tasks = [(7, Rejected), (8, Running)],
                   executing = [0, 1], results = [], main = Thrown\<rparr>"



section \<open>Keys and example data\<close>

text \<open>The pair that identifies an article within the store: its feed and its guid.\<close>

definition akey :: "article \<Rightarrow> nat \<times> jstring" where
  "akey a = (feedId a, article.guid a)"

text \<open>A store with one subscribed feed that has failed four times, and a parse result of two
  items without any field.\<close>

definition exampleFeed :: feed where
  "exampleFeed =
     \<lparr>feed.ident = 1, title = str ''Blog'', url = str ''https://example.com/feed.xml'',
      siteUrl = None, description = None, favicon = None, categoryId = None,
      lastFetched = None, errorCount = Some 4, isActive = Some True\<rparr>"

definition exampleStore :: store where
  "exampleStore = \<lparr>feeds = [exampleFeed], articles = [], categories = [], nextId = 2\<rparr>"

definition blankItem :: item where
  "blankItem =
     \<lparr>item.guid = None, link = None, title = None, content_encoded = None, content = None,
      contentSnippet = None, creator = None, author = None, enclosure_url = None,
      pubDate = None\<rparr>"

text \<open>An item whose publication date the runtime does not parse, and a date parser.\<close>

definition undatedItem :: item where
  "undatedItem = blankItem\<lparr>item.guid := Some (Str (str ''g1'')), pubDate := Some (str ''not a date'')\<rparr>"

definition undatedFeed :: parsed_feed where
  "undatedFeed =
     \<lparr>parsed_feed.title = None, link = None, description = None,
      items = Some [undatedItem]\<rparr>"

definition parsesAsDate :: "jstring \<Rightarrow> bool" where
  "parsesAsDate s \<longleftrightarrow> s \<noteq> str ''not a date''"

definition blankFeed :: parsed_feed where
  "blankFeed =
     \<lparr>parsed_feed.title = None, link = None, description = None,
      items = Some [blankItem, blankItem]\<rparr>"

text \<open>The same feed before any failure.\<close>

definition freshFeed :: feed where
  "freshFeed = exampleFeed\<lparr>errorCount := Some 0\<rparr>"

definition freshStore :: store where
  "freshStore = \<lparr>feeds = [freshFeed], articles = [], categories = [], nextId = 2\<rparr>"


section \<open>Properties of the store and of the synchronisation of one feed\<close>

lemma find_map_patch:
  assumes "find (\<lambda>f. feed.ident f = i) fs = Some f" "feed.ident (p f) = i"
  shows "find (\<lambda>f. feed.ident f = i) (map (\<lambda>f. if feed.ident f = i then p f else f) fs) = Some (p f)"
  using assms by (induction fs) (auto split: if_splits)

lemma ident_applyPatch [simp]: "feed.ident (applyPatch p f) = feed.ident f"
  by (simp add: applyPatch_def)

lemma getFeed_writeFeed:
  "getFeed st i = Some f \<Longrightarrow> getFeed (writeFeed i p st) i = Some (applyPatch p f)"
proof -
  assume a: "getFeed st i = Some f"
  then have "feed.ident f = i" by (auto simp: getFeed_def find_Some_iff)
  then show ?thesis using a by (simp add: getFeed_def writeFeed_def find_map_patch)
qed

lemma getFeed_ident: "getFeed st i = Some f \<Longrightarrow> feed.ident f = i"
  by (auto simp: getFeed_def find_Some_iff)

lemma getFeed_mem: "getFeed st i = Some f \<Longrightarrow> f \<in> set (feeds st)"
  by (auto simp: getFeed_def find_Some_iff)

lemma articles_writeFeed [simp]: "articles (writeFeed i p st) = articles st"
  by (simp add: writeFeed_def)

lemma updateFeed_int4:
  "set_errorCount p = Some v \<Longrightarrow> int4 v \<Longrightarrow> updateFeed i p st = Returns (writeFeed i p st)"
  by (simp add: updateFeed_def)

lemma updateFeed_out_of_range:
  "set_errorCount p = Some v \<Longrightarrow> \<not> int4 v \<Longrightarrow> updateFeed i p st = Throws"
  by (simp add: updateFeed_def)

lemma createArticle_Returns:
  "createArticle a st = Returns st' \<Longrightarrow>
   feeds st' = feeds st \<and> articles st' = articles st @ [a\<lparr>article.ident := nextId st\<rparr>]"
  by (auto simp: createArticle_def split: if_splits)

lemma insertItems_feeds:
  "feeds (fst (stateOf (insertItems valid now fid its sn))) = feeds (fst sn)"
  by (induction valid now fid its sn rule: insertItems.induct)
     (auto split: call.splits option.splits dest: createArticle_Returns)

lemma getFeed_insertItems:
  "getFeed (fst (stateOf (insertItems valid now fid its sn))) i = getFeed (fst sn) i"
  by (simp add: getFeed_def insertItems_feeds)

lemma lookup_None_iff:
  "getArticleByGuid st fid (Str s) = Returns None \<longleftrightarrow> (fid, s) \<notin> akey ` set (articles st)"
  by (auto simp: getArticleByGuid_def find_None_iff akey_def image_iff)

lemma lookup_cases:
  "getArticleByGuid st fid g = Returns r \<Longrightarrow> \<exists>s. g = Str s"
  by (cases g) (auto simp: getArticleByGuid_def)

lemma akey_articleOf:
  "akey ((articleOf valid now fid it)\<lparr>article.ident := k\<rparr>) = (fid, guidString (guidOf it))"
  by (simp add: akey_def articleOf_def)

lemma insertItems_distinct:
  "distinct (map akey (articles st)) \<Longrightarrow>
   distinct (map akey (articles (fst (stateOf (insertItems valid now fid its (st, n))))))"
proof (induction its arbitrary: st n)
  case Nil
  then show ?case by simp
next
  case (Cons it its)
  show ?case
  proof (cases "getArticleByGuid st fid (guidOf it)")
    case Throws
    then show ?thesis using Cons.prems by simp
  next
    case (Returns r)
    then obtain s where s: "guidOf it = Str s" using lookup_cases by blast
    show ?thesis
    proof (cases r)
      case (Some a)
      then show ?thesis using Returns Cons by simp
    next
      case None
      show ?thesis
      proof (cases "createArticle (articleOf valid now fid it) st")
        case Throws
        then show ?thesis using Returns None Cons.prems by simp
      next
        case (Returns st')
        have new: "(fid, s) \<notin> akey ` set (articles st)"
          using \<open>getArticleByGuid st fid (guidOf it) = Returns r\<close> None s
          by (simp add: lookup_None_iff)
        have "articles st' = articles st @ [(articleOf valid now fid it)\<lparr>article.ident := nextId st\<rparr>]"
          using createArticle_Returns [OF Returns] by simp
        then have "distinct (map akey (articles st'))"
          using Cons.prems new s by (simp add: akey_articleOf guidString_def)
        then show ?thesis
          using Cons.IH [where st = st' and n = "Suc n"] Returns None
            \<open>getArticleByGuid st fid (guidOf it) = Returns r\<close> by simp
      qed
    qed
  qed
qed

lemma find_append_Some: "find P xs = Some a \<Longrightarrow> find P (xs @ ys) = Some a"
  by (induction xs) auto

lemma lookup_append:
  "getArticleByGuid st fid g = Returns (Some a) \<Longrightarrow> articles st' = articles st @ rest \<Longrightarrow>
   getArticleByGuid st' fid g = Returns (Some a)"
  by (cases g) (auto simp: getArticleByGuid_def find_append_Some)

lemma insertItems_grows:
  "\<exists>rest. articles (fst (stateOf (insertItems valid now fid its (st, n)))) = articles st @ rest"
proof (induction its arbitrary: st n)
  case Nil
  then show ?case by simp
next
  case (Cons it its)
  show ?case
  proof (cases "getArticleByGuid st fid (guidOf it)")
    case Throws
    then show ?thesis by simp
  next
    case (Returns r)
    show ?thesis
    proof (cases r)
      case (Some a)
      then show ?thesis using Returns Cons.IH [where st = st and n = n] by simp
    next
      case None
      show ?thesis
      proof (cases "createArticle (articleOf valid now fid it) st")
        case Throws
        then show ?thesis using \<open>getArticleByGuid st fid (guidOf it) = Returns r\<close> None by simp
      next
        case (Returns st')
        obtain rest where "articles (fst (stateOf (insertItems valid now fid its (st', Suc n))))
            = articles st' @ rest"
          using Cons.IH [where st = st' and n = "Suc n"] by blast
        then show ?thesis
          using createArticle_Returns [OF Returns] Returns None
            \<open>getArticleByGuid st fid (guidOf it) = Returns r\<close> by simp
      qed
    qed
  qed
qed

lemma insertItems_keeps_found:
  "getArticleByGuid st fid' g = Returns (Some a) \<Longrightarrow>
   getArticleByGuid (fst (stateOf (insertItems valid now fid its (st, n)))) fid' g = Returns (Some a)"
  using insertItems_grows [where valid = valid and now = now and fid = fid and its = its
      and st = st and n = n] lookup_append by blast

lemma lookup_created:
  assumes "createArticle (articleOf valid now fid it) st = Returns st'"
    and "getArticleByGuid st fid (guidOf it) = Returns None"
  shows "\<exists>a. getArticleByGuid st' fid (guidOf it) = Returns (Some a)"
proof -
  obtain s where s: "guidOf it = Str s" using assms(2) lookup_cases by blast
  have "articles st' = articles st @ [(articleOf valid now fid it)\<lparr>article.ident := nextId st\<rparr>]"
    using createArticle_Returns [OF assms(1)] by simp
  then have "(fid, s) \<in> akey ` set (articles st')"
    using akey_articleOf [where valid = valid and now = now and fid = fid and it = it
        and k = "nextId st"] s
    by (simp add: guidString_def)
  then have "getArticleByGuid st' fid (Str s) \<noteq> Returns None"
    by (simp add: lookup_None_iff)
  then show ?thesis
    using s by (cases "find (\<lambda>a. feedId a = fid \<and> article.guid a = s) (articles st')")
      (auto simp: getArticleByGuid_def)
qed

lemma insertItems_all_present:
  "insertItems valid now fid its (st, n) = Done sn' \<Longrightarrow> it \<in> set its \<Longrightarrow>
   \<exists>a. getArticleByGuid (fst sn') fid (guidOf it) = Returns (Some a)"
proof (induction its arbitrary: st n)
  case Nil
  then show ?case by simp
next
  case (Cons x xs)
  show ?case
  proof (cases "getArticleByGuid st fid (guidOf x)")
    case Throws
    then show ?thesis using Cons.prems by simp
  next
    case (Returns r)
    show ?thesis
    proof (cases r)
      case (Some a)
      then have run: "insertItems valid now fid xs (st, n) = Done sn'"
        using Cons.prems(1) Returns by simp
      show ?thesis
      proof (cases "it = x")
        case True
        then show ?thesis
          using insertItems_keeps_found [where st = st and fid' = fid and g = "guidOf x" and a = a
              and valid = valid and now = now and fid = fid and its = xs and n = n] Returns Some run
          by auto
      next
        case False
        then show ?thesis using Cons.IH [OF run] Cons.prems(2) by simp
      qed
    next
      case None
      show ?thesis
      proof (cases "createArticle (articleOf valid now fid x) st")
        case Throws
        then show ?thesis
          using Cons.prems(1) \<open>getArticleByGuid st fid (guidOf x) = Returns r\<close> None by simp
      next
        case (Returns st')
        then have run: "insertItems valid now fid xs (st', Suc n) = Done sn'"
          using Cons.prems(1) \<open>getArticleByGuid st fid (guidOf x) = Returns r\<close> None by simp
        show ?thesis
        proof (cases "it = x")
          case True
          obtain a where "getArticleByGuid st' fid (guidOf x) = Returns (Some a)"
            using lookup_created [OF Returns] \<open>getArticleByGuid st fid (guidOf x) = Returns r\<close> None
            by blast
          then show ?thesis
            using insertItems_keeps_found [where st = st' and fid' = fid and g = "guidOf x" and a = a
                and valid = valid and now = now and fid = fid and its = xs and n = "Suc n"] run True
            by auto
        next
          case False
          then show ?thesis using Cons.IH [OF run] Cons.prems(2) by simp
        qed
      qed
    qed
  qed
qed

lemma insertItems_present:
  "\<forall>it \<in> set its. \<exists>a. getArticleByGuid st fid (guidOf it) = Returns (Some a) \<Longrightarrow>
   insertItems valid now fid its (st, n) = Done (st, n)"
  by (induction its) auto

lemma insertItems_append:
  "insertItems valid now fid (xs @ ys) sn =
     (case insertItems valid now fid xs sn of
        Done sn' \<Rightarrow> insertItems valid now fid ys sn'
      | Threw sn' \<Rightarrow> Threw sn')"
  by (induction valid now fid xs sn rule: insertItems.induct)
     (auto split: call.splits option.splits)

lemma insertItems_skip_duplicate:
  assumes "guidOf b \<in> guidOf ` set xs"
  shows "insertItems valid now fid (xs @ b # ys) (st, n) = insertItems valid now fid (xs @ ys) (st, n)"
proof (cases "insertItems valid now fid xs (st, n)")
  case (Threw sn')
  then show ?thesis by (simp add: insertItems_append)
next
  case (Done sn')
  from assms obtain a where a: "a \<in> set xs" "guidOf a = guidOf b" by auto
  obtain row where "getArticleByGuid (fst sn') fid (guidOf b) = Returns (Some row)"
    using insertItems_all_present [OF Done a(1)] a(2) by auto
  then show ?thesis
    using Done by (cases sn') (simp add: insertItems_append)
qed

lemma feeds_split:
  assumes "getFeed st i = Some f" "distinct (map feed.ident (feeds st))"
  shows "\<exists>xs ys. feeds st = xs @ f # ys \<and> (\<forall>g \<in> set xs \<union> set ys. feed.ident g \<noteq> i)"
proof -
  from assms(1) obtain k where k: "k < length (feeds st)" "feeds st ! k = f" "feed.ident f = i"
    by (auto simp: getFeed_def find_Some_iff)
  then have eq: "feeds st = take k (feeds st) @ f # drop (Suc k) (feeds st)"
    using id_take_nth_drop [of k "feeds st"] by simp
  have "distinct (map feed.ident (take k (feeds st) @ f # drop (Suc k) (feeds st)))"
    using assms(2) eq by simp
  then have "\<forall>g \<in> set (take k (feeds st)) \<union> set (drop (Suc k) (feeds st)). feed.ident g \<noteq> i"
    using k(3) by (auto simp: image_iff)
  with eq show ?thesis by blast
qed

lemma failing_count_update:
  assumes "getFeed st i = Some f" "distinct (map feed.ident (feeds st))"
  shows "failingFeeds (getFeedHealthStats (writeFeed i p st))
         + (if 3 \<le> orZero (errorCount f) then 1 else 0)
       = failingFeeds (getFeedHealthStats st)
         + (if 3 \<le> orZero (errorCount (applyPatch p f)) then 1 else 0)"
proof -
  from feeds_split [OF assms] obtain xs ys where
    s: "feeds st = xs @ f # ys" "\<forall>g \<in> set xs \<union> set ys. feed.ident g \<noteq> i" by blast
  have i: "feed.ident f = i" using assms(1) by (rule getFeed_ident)
  have "map (\<lambda>g. if feed.ident g = i then applyPatch p g else g) xs = xs"
       "map (\<lambda>g. if feed.ident g = i then applyPatch p g else g) ys = ys"
    using s(2) by (auto intro: map_idI)
  then show ?thesis
    by (simp add: getFeedHealthStats_def writeFeed_def s(1) i Let_def)
qed

lemma countFailure_row:
  "applyPatch (countFailure f) f = f\<lparr>errorCount := Some (orZero (errorCount f) + 1)\<rparr>"
  by (simp add: applyPatch_def countFailure_def)

lemma refresh_failure:
  assumes "int4 (orZero (errorCount f) + 1)"
  shows "refreshFeed valid now (Failure err) f (st, n)
           = Done (writeFeed (feed.ident f) (countFailure f) st, n)"
  using assms by (simp add: refreshFeed_def updateFeed_def countFailure_def)

lemma refresh_loop_threw:
  assumes "int4 (orZero (errorCount f) + 1)"
    and "insertItems valid now (feed.ident f) (take 50 (itemsOf pf)) (st, n) = Threw (st', n')"
  shows "refreshFeed valid now (Success pf) f (st, n)
           = Done (writeFeed (feed.ident f) (countFailure f) st', n')"
  using assms by (simp add: refreshFeed_def catchBranch_def updateFeed_def countFailure_def)

lemma refresh_loop_done:
  assumes "insertItems valid now (feed.ident f) (take 50 (itemsOf pf)) (st, n) = Done (st', n')"
  shows "refreshFeed valid now (Success pf) f (st, n)
           = Done (writeFeed (feed.ident f)
                     \<lparr>set_lastFetched = Some (At now), set_errorCount = Some 0\<rparr> st', n')"
  using assms by (simp add: refreshFeed_def updateFeed_def int4_def)

lemma success_row:
  "applyPatch \<lparr>set_lastFetched = Some (At now), set_errorCount = Some 0\<rparr> f
     = f\<lparr>lastFetched := Some (At now), errorCount := Some 0\<rparr>"
  by (simp add: applyPatch_def)

text \<open>
  When no item of the batch has an object for a guid or a date the runtime does not
  parse, no call of the loop throws.
\<close>

lemma insertItems_storable:
  "\<forall>it \<in> set its. guidOf it \<noteq> Obj \<and> (truthy (pubDate it) \<longrightarrow> valid (the (pubDate it))) \<Longrightarrow>
   \<exists>sn'. insertItems valid now fid its (st, n) = Done sn'"
proof (induction its arbitrary: st n)
  case Nil
  then show ?case by simp
next
  case (Cons it its)
  obtain s where s: "guidOf it = Str s" using Cons.prems by (cases "guidOf it") auto
  have c: "createArticle (articleOf valid now fid it) st
      = Returns (st\<lparr>articles := articles st @ [(articleOf valid now fid it)\<lparr>article.ident := nextId st\<rparr>],
                    nextId := Suc (nextId st)\<rparr>)"
    using Cons.prems by (simp add: createArticle_def articleOf_def)
  show ?case
    using Cons.IH Cons.prems s c
    by (cases "find (\<lambda>a. feedId a = fid \<and> article.guid a = s) (articles st)")
       (simp_all add: getArticleByGuid_def)
qed


section \<open>Properties of the URL normaliser\<close>

lemma rxm_Eol: "rxm ic Eol st k = (if fst (snd st) = [] then k st else None)"
  by (cases st) auto

lemma star_greedy:
  "rxm ic (Star p) (i, s, cs) Some = Some (i + length (takeWhile p s), dropWhile p s, cs)"
  by (induction s arbitrary: i) (auto simp: rxm.simps(8))

lemma star_eol:
  "rxm ic (Star p) (i, s, cs) (\<lambda>st. if fst (snd st) = [] then Some st else None)
     = (if \<forall>x \<in> set s. p x then Some (i + length s, [], cs) else None)"
  by (induction s arbitrary: i) (auto simp: rxm.simps(8))

lemma dropEnd_Nil [simp]: "dropEnd p [] = []" by (simp add: dropEnd_def)

lemma dropEnd_Cons:
  "dropEnd p (x # xs) = (if \<forall>y \<in> set (x # xs). p y then [] else x # dropEnd p xs)"
  by (auto simp: dropEnd_def dropWhile_append)

lemma dropEnd_append_all: "\<forall>y \<in> set r. p y \<Longrightarrow> dropEnd p (v @ r) = dropEnd p v"
  by (simp add: dropEnd_def dropWhile_append)

lemma dropEnd_decomp: "\<exists>r. s = dropEnd p s @ r \<and> (\<forall>y \<in> set r. p y)"
proof -
  have "rev s = takeWhile p (rev s) @ dropWhile p (rev s)" by simp
  then have "rev (rev s) = rev (takeWhile p (rev s) @ dropWhile p (rev s))" by simp
  then have "s = rev (dropWhile p (rev s)) @ rev (takeWhile p (rev s))"
    by (simp only: rev_rev_ident rev_append)
  moreover have "\<forall>y \<in> set (rev (takeWhile p (rev s))). p y"
    by (auto dest: set_takeWhileD)
  ultimately show ?thesis unfolding dropEnd_def by blast
qed

lemma strip_at_start:
  "rxm False stripRegex (0, s, cs) Some =
     (case s of [] \<Rightarrow> None
      | x # xs \<Rightarrow> if urlSpace x
                 then Some (Suc (length (takeWhile urlSpace xs)), dropWhile urlSpace xs, cs)
                 else None)"
  by (simp add: stripRegex_def star_greedy rxm_Eol split: list.splits)

lemma strip_later:
  "0 < i \<Longrightarrow> rxm False stripRegex (i, s, cs) Some =
     (if s \<noteq> [] \<and> (\<forall>x \<in> set s. urlSpace x) then Some (i + length s, [], cs) else None)"
  by (cases s) (auto simp: stripRegex_def rxm_Eol star_eol)

lemma replace_strip_later:
  "0 < i \<Longrightarrow> replace_all False stripRegex [] i s = dropEnd urlSpace s"
proof (induction s arbitrary: i)
  case Nil
  then show ?case by (simp add: replace_all.simps strip_later)
next
  case (Cons x xs)
  show ?case
  proof (cases "\<forall>y \<in> set (x # xs). urlSpace y")
    case True
    then have "replace_all False stripRegex [] i (x # xs)
        = replace_all False stripRegex [] (i + length (x # xs)) []"
      using Cons.prems by (subst replace_all.simps) (simp add: strip_later)
    also have "\<dots> = []" by (subst replace_all.simps) (simp add: strip_later)
    finally show ?thesis using True by (simp add: dropEnd_Cons)
  next
    case False
    then have "replace_all False stripRegex [] i (x # xs)
        = x # replace_all False stripRegex [] (Suc i) xs"
      using Cons.prems by (subst replace_all.simps) (auto simp: strip_later)
    then show ?thesis using False Cons.IH [of "Suc i"] by (simp add: dropEnd_Cons)
  qed
qed

lemma replace_strip:
  "replace_all False stripRegex [] 0 s = stripBoth urlSpace s"
proof (cases s)
  case Nil
  then show ?thesis by (simp add: replace_all.simps strip_at_start stripBoth_def)
next
  case (Cons x xs)
  show ?thesis
  proof (cases "urlSpace x")
    case True
    have "length (dropWhile urlSpace xs) < Suc (length xs)"
      using length_dropWhile_le [of urlSpace xs] by simp
    then have "replace_all False stripRegex [] 0 s
        = replace_all False stripRegex [] (Suc (length (takeWhile urlSpace xs))) (dropWhile urlSpace xs)"
      using Cons True by (subst replace_all.simps) (simp add: strip_at_start)
    then show ?thesis using True Cons
      by (simp add: replace_strip_later stripBoth_def)
  next
    case False
    then have "replace_all False stripRegex [] 0 s = x # replace_all False stripRegex [] (Suc 0) xs"
      using Cons by (subst replace_all.simps) (simp add: strip_at_start)
    then show ?thesis using False Cons
      by (simp add: replace_strip_later stripBoth_def dropEnd_Cons)
  qed
qed

lemma dropWhile_weaker:
  "(\<And>c. q c \<Longrightarrow> p c) \<Longrightarrow> dropWhile p (dropWhile q s) = dropWhile p s"
  by (induction s) auto

lemma stripBoth_weaker:
  assumes "\<And>c. q c \<Longrightarrow> p c"
  shows "stripBoth p (stripBoth q s) = stripBoth p s"
proof -
  let ?t = "dropWhile q s"
  obtain r where r: "?t = dropEnd q ?t @ r" "\<forall>y \<in> set r. q y"
    using dropEnd_decomp [of ?t q] by blast
  then have pr: "\<forall>y \<in> set r. p y" using assms by blast
  have "dropEnd p (dropWhile p (dropEnd q ?t)) = dropEnd p (dropWhile p ?t)"
  proof (cases "\<forall>y \<in> set (dropEnd q ?t). p y")
    case True
    have "set ?t = set (dropEnd q ?t) \<union> set r" using r(1) by (metis set_append)
    then have "\<forall>y \<in> set ?t. p y" using True pr by auto
    then have e1: "dropWhile p ?t = []" by (simp only: dropWhile_eq_Nil_conv)
    have e2: "dropWhile p (dropEnd q ?t) = []"
      using True by (simp only: dropWhile_eq_Nil_conv)
    show ?thesis unfolding e1 e2 ..
  next
    case False
    then have "dropWhile p (dropEnd q ?t @ r) = dropWhile p (dropEnd q ?t) @ r"
      by (auto simp: dropWhile_append)
    then have "dropEnd p (dropWhile p ?t) = dropEnd p (dropWhile p (dropEnd q ?t) @ r)"
      using r(1) by simp
    then show ?thesis using dropEnd_append_all [OF pr] by simp
  qed
  then show ?thesis
    using dropWhile_weaker [of q p s] assms
    by (simp add: stripBoth_def)
qed

lemma trim_stripBoth: "trim s = stripBoth isWhiteSpace s"
  by (simp add: trim_def stripBoth_def dropEnd_def)

lemma strip_after_trim:
  "replace_all False stripRegex [] 0 (trim s) = stripBoth urlSpace s"
  using stripBoth_weaker [of isWhiteSpace urlSpace s]
  by (simp add: replace_strip trim_stripBoth urlSpace_def)

lemma canon_numeral:
  "canon ic (numeral k) =
     (if ic \<and> 97 \<le> (numeral k :: nat) \<and> (numeral k :: nat) \<le> 122 then numeral k - 32 else numeral k)"
  by (simp add: canon_def)

lemma protocol_later: "0 < i \<Longrightarrow> search True protocolRegex i s = None"
  by (induction s arbitrary: i) (simp_all add: protocolRegex_def)

lemma startsWithCI_Nil [simp]: "startsWithCI s []"
  by (simp add: startsWithCI_def)

lemma startsWithCI_Cons:
  "startsWithCI s (c # p) \<longleftrightarrow>
     (case s of [] \<Rightarrow> False | x # xs \<Rightarrow> canon True x = canon True c \<and> startsWithCI xs p)"
  by (cases s) (auto simp: startsWithCI_def)

lemma startsWithCI_append:
  "startsWithCI s (a @ b) \<longleftrightarrow> startsWithCI s a \<and> startsWithCI (drop (length a) s) b"
proof (induction a arbitrary: s)
  case Nil
  then show ?case by simp
next
  case (Cons c a)
  then show ?case by (cases s) (simp_all add: startsWithCI_Cons)
qed

lemma lit_match:
  "rxm True (lit p) (i, s, cs) k =
     (if startsWithCI s (str p) then k (i + length p, drop (length p) s, cs) else None)"
proof (induction p arbitrary: i s)
  case Nil
  then show ?case by (simp add: str_def)
next
  case (Cons c p)
  show ?case
  proof (cases s)
    case Nil
    then show ?thesis by (simp add: str_def startsWithCI_Cons)
  next
    case (Cons x xs)
    then show ?thesis
      using Cons.IH [of "Suc i" xs] by (simp add: str_def startsWithCI_Cons)
  qed
qed

lemma chr_match:
  "rxm True (Chr c) (i, s, cs) k =
     (if startsWithCI s [c] then k (Suc i, drop 1 s, cs) else None)"
  by (cases s) (simp_all add: startsWithCI_Cons)

lemma length_str: "length (str p) = length p"
  by (simp add: str_def)

lemma startsWithCI_first:
  "startsWithCI t (c # q) \<longleftrightarrow> startsWithCI t [c] \<and> startsWithCI (drop (Suc 0) t) q"
  using startsWithCI_append [of t "[c]" q] by simp

lemma protocol_start:
  "(rxm True protocolRegex (0, s, cs) Some = None)
     \<longleftrightarrow> \<not> (startsWithCI s (str ''http://'') \<or> startsWithCI s (str ''https://''))"
proof -
  have a: "str ''http://'' = str ''http'' @ str ''://''"
    and b: "str ''https://'' = str ''http'' @ [115] @ str ''://''"
    by (simp_all add: str_def)
  show ?thesis
    unfolding a b
    by (auto simp add: protocolRegex_def lit_match chr_match startsWithCI_append length_str
        startsWithCI_first [of _ 115 "str ''://''"]
        simp del: lit.simps rxm.simps(2) split: option.splits)
qed

lemma search_protocol:
  "(search True protocolRegex 0 s = None)
     \<longleftrightarrow> \<not> (startsWithCI s (str ''http://'') \<or> startsWithCI s (str ''https://''))"
proof (cases s)
  case Nil
  then show ?thesis
    using protocol_start [of "[]" Map.empty] by (auto split: option.splits)
next
  case (Cons x xs)
  then show ?thesis
    using protocol_start [of "x # xs" Map.empty] protocol_later [of "Suc 0" xs]
    by (auto split: option.splits)
qed

lemma normalizeUrl_general:
  "normalizeUrl s =
     (let t = stripBoth urlSpace s
      in if startsWithCI t (str ''http://'') \<or> startsWithCI t (str ''https://'')
         then t else str ''https://'' @ t)"
  using search_protocol [of "stripBoth urlSpace s"]
  by (simp add: normalizeUrl_def strip_after_trim Let_def)

lemma normalizeUrl_bare_host: "normalizeUrl (str ''example.com'') = str ''https://example.com''"
  unfolding normalizeUrl_general
  by (simp add: stripBoth_def dropEnd_def urlSpace_def isWhiteSpace_def startsWithCI_def
      str_def canon_def Let_def)

lemma normalizeUrl_padded: "normalizeUrl (str '' https://foo.com'' @ [8203, 32]) = str ''https://foo.com''"
  unfolding normalizeUrl_general
  by (simp add: stripBoth_def dropEnd_def urlSpace_def isWhiteSpace_def startsWithCI_def
      str_def canon_def Let_def)

lemma normalizeUrl_upper_scheme: "normalizeUrl (str ''HTTP://x.com'') = str ''HTTP://x.com''"
  unfolding normalizeUrl_general
  by (simp add: stripBoth_def dropEnd_def urlSpace_def isWhiteSpace_def startsWithCI_def
      str_def canon_def Let_def)


section \<open>Properties of the summary\<close>

lemma rxm_Chr_any:
  "rxm False (Chr e) st K =
     (case fst (snd st) of [] \<Rightarrow> None
      | x # xs \<Rightarrow> if x = e then K (Suc (fst st), xs, snd (snd st)) else None)"
  by (cases st) (auto simp: canon_def split: list.splits)

lemma star_until:
  "rxm False (Star (\<lambda>c. c \<noteq> e)) (i, s, cs) (\<lambda>st. rxm False (Chr e) st K) =
     (if e \<in> set s
      then K (Suc (i + length (takeWhile (\<lambda>c. c \<noteq> e) s)), tl (dropWhile (\<lambda>c. c \<noteq> e) s), cs)
      else None)"
proof (induction s arbitrary: i)
  case Nil
  then show ?case by (simp add: rxm.simps(8) rxm_Chr_any)
next
  case (Cons x xs)
  show ?case
  proof (cases "x = e")
    case True
    then show ?thesis by (simp add: rxm.simps(8) rxm_Chr_any)
  next
    case False
    show ?thesis
    proof (cases "e \<in> set xs")
      case True
      then show ?thesis
        using False Cons.IH [of "Suc i"]
        by (simp add: rxm.simps(8) rxm_Chr_any split: option.splits)
    next
      case False
      then show ?thesis
        using \<open>x \<noteq> e\<close> Cons.IH [of "Suc i"]
        by (simp add: rxm.simps(8) rxm_Chr_any)
    qed
  qed
qed

lemma tag_match:
  "rxm False tagRegex (i, s, cs) Some =
     (case s of [] \<Rightarrow> None
      | x # xs \<Rightarrow>
          if x = 60 \<and> 62 \<in> set xs
          then Some (Suc (Suc i + length (takeWhile (\<lambda>c. c \<noteq> 62) xs)),
                     tl (dropWhile (\<lambda>c. c \<noteq> 62) xs), cs)
          else None)"
  by (cases s) (simp_all add: tagRegex_def canon_def star_until)

lemma replace_tags: "replace_all False tagRegex [] i s = stripTags s"
proof (induction s arbitrary: i rule: stripTags.induct)
  case 1
  then show ?case by (simp add: replace_all.simps tag_match)
next
  case (2 x xs)
  show ?case
  proof (cases "x = 60 \<and> 62 \<in> set xs")
    case True
    have "length (tl (dropWhile (\<lambda>c. c \<noteq> 62) xs)) < Suc (length xs)"
      using length_dropWhile_le [of "\<lambda>c. c \<noteq> 62" xs] by (simp add: less_Suc_eq_le le_diff_conv)
    then have "replace_all False tagRegex [] i (x # xs)
        = replace_all False tagRegex [] (Suc (Suc i + length (takeWhile (\<lambda>c. c \<noteq> 62) xs)))
            (tl (dropWhile (\<lambda>c. c \<noteq> 62) xs))"
      using True by (subst replace_all.simps) (simp add: tag_match)
    then show ?thesis using True 2(1) by simp
  next
    case False
    then have "replace_all False tagRegex [] i (x # xs) = x # replace_all False tagRegex [] (Suc i) xs"
      by (subst replace_all.simps) (auto simp: tag_match)
    then show ?thesis using False 2(2) by auto
  qed
qed

lemma lastIndexOf_none:
  "c \<notin> set (take (Suc f) s) \<Longrightarrow> lastIndexOf s c f = - 1"
  by (simp add: lastIndexOf_def Let_def)

lemma lastIndexOf_found:
  assumes "c \<in> set (take (Suc f) s)"
  shows "\<exists>k. lastIndexOf s c f = int k \<and> k \<le> f \<and> k < length s \<and> s ! k = c
           \<and> (\<forall>j. k < j \<and> j \<le> f \<and> j < length s \<longrightarrow> s ! j \<noteq> c)"
proof -
  define p where "p = take (Suc f) s"
  define t where "t = takeWhile (\<lambda>x. x \<noteq> c) (rev p)"
  define d where "d = dropWhile (\<lambda>x. x \<noteq> c) (rev p)"
  have cin: "c \<in> set (rev p)" using assms by (simp add: p_def)
  then have dne: "d \<noteq> []" unfolding d_def by (auto simp: dropWhile_eq_Nil_conv)
  then have hd: "hd d = c"
    unfolding d_def using hd_dropWhile [of "\<lambda>x. x \<noteq> c" "rev p"] by simp
  obtain r where dr: "d = c # r" using dne hd by (cases d) auto
  have "t @ d = rev p" unfolding t_def d_def by (rule takeWhile_dropWhile_id)
  then have "rev (t @ d) = rev (rev p)" by (rule arg_cong)
  then have pp: "p = rev r @ c # rev t" by (simp add: dr)
  have tnc: "\<forall>x \<in> set t. x \<noteq> c" unfolding t_def by (auto dest: set_takeWhileD)
  have lp: "length p = Suc (length r + length t)" by (simp add: pp)
  have k: "lastIndexOf s c f = int (length r)"
    using assms lp unfolding lastIndexOf_def Let_def p_def [symmetric] t_def [symmetric]
    by simp
  have klt: "length r < length p" using lp by simp
  have ps: "p ! j = s ! j" if "j < length p" for j
    using that unfolding p_def by simp
  have lps: "length p = min (Suc f) (length s)" unfolding p_def by simp
  have ks: "length r < length s" "length r \<le> f" using klt lps by simp_all
  have pk: "p ! length r = c" unfolding pp by (simp add: nth_append)
  then have sk: "s ! length r = c" using ps [OF klt] by simp
  have after: "s ! j \<noteq> c" if j: "length r < j" "j \<le> f" "j < length s" for j
  proof -
    have jl: "j < length p" using j lps by simp
    obtain m where m: "j = Suc (length r + m)" using j(1) less_imp_Suc_add by blast
    have ml: "m < length (rev t)" using jl lp m by simp
    have "p ! j = rev t ! m" unfolding pp m by (simp add: nth_append)
    moreover have "rev t ! m \<in> set (rev t)" using ml by (rule nth_mem)
    ultimately have "p ! j \<noteq> c" using tnc by auto
    then show ?thesis using ps [OF jl] by simp
  qed
  show ?thesis using k ks sk after by blast
qed

lemma stripTags_plain: "60 \<notin> set s \<Longrightarrow> stripTags s = s"
  by (induction s) auto

lemma trim_id:
  assumes "s \<noteq> []" "\<not> isWhiteSpace (hd s)" "\<not> isWhiteSpace (last s)"
  shows "trim s = s"
proof -
  have a: "dropWhile isWhiteSpace s = s" using assms(1,2) by (cases s) auto
  have "rev (butlast s @ [last s]) = last s # rev (butlast s)" by simp
  then have r: "rev s = last s # rev (butlast s)"
    using append_butlast_last_id [OF assms(1)] by (simp only:)
  have "dropWhile isWhiteSpace (last s # rev (butlast s)) = last s # rev (butlast s)"
    using assms(3) by simp
  then have b: "dropWhile isWhiteSpace (rev s) = rev s" by (simp only: r)
  show ?thesis by (simp add: trim_def a b)
qed

lemma extractSummary_text:
  assumes "c \<noteq> []"
  shows "extractSummary (Some c) m =
     (let text = trim (stripTags c) in
      if length text \<le> m then Some text
      else let lastSpace = lastIndexOf text 32 m in
           Some (take (if lastSpace > 0 then nat lastSpace else m) text @ str ''...''))"
  using assms by (simp add: extractSummary_def truthy_def replace_tags)

lemma tabbed_text: "trim (stripTags tabbed) = tabbed"
proof -
  have "stripTags tabbed = tabbed" by (rule stripTags_plain) (auto simp: tabbed_def)
  moreover have "trim tabbed = tabbed"
    by (rule trim_id) (simp_all add: tabbed_def isWhiteSpace_def hd_append)
  ultimately show ?thesis by simp
qed

lemma longDoc_text: "trim (stripTags longDoc) = longDoc"
proof -
  have "stripTags longDoc = longDoc" by (rule stripTags_plain) (auto simp: longDoc_def)
  moreover have "trim longDoc = longDoc"
    by (rule trim_id) (simp_all add: longDoc_def isWhiteSpace_def hd_append)
  ultimately show ?thesis by simp
qed

lemma shortDoc_text: "trim (stripTags shortDoc) = str ''Hi there''"
  by (simp add: shortDoc_def str_def trim_def isWhiteSpace_def)

section \<open>Properties of the bounded concurrency executor\<close>

lemma filter_update_same:
  "i < length xs \<Longrightarrow> P (xs ! i) = P y \<Longrightarrow>
   length (filter P (xs[i := y])) = length (filter P xs)"
proof (induction xs arbitrary: i)
  case Nil
  then show ?case by simp
next
  case (Cons x xs)
  then show ?case by (cases i) auto
qed

lemma filter_update_gain:
  "i < length xs \<Longrightarrow> \<not> P (xs ! i) \<Longrightarrow> P y \<Longrightarrow>
   length (filter P (xs[i := y])) = Suc (length (filter P xs))"
proof (induction xs arbitrary: i)
  case Nil
  then show ?case by simp
next
  case (Cons x xs)
  then show ?case by (cases i) auto
qed

lemma map_fst_update: "i < length xs \<Longrightarrow> map fst (xs[i := (fst (xs ! i), y)]) = map fst xs"
  by (simp add: map_update list_update_same_conv)

lemma unfulfilled_update_same:
  assumes "i < length ts" "isFulfilled y = isFulfilled (snd (ts ! i))"
  shows "{j. j < length (ts[i := (a, y)]) \<and> \<not> isFulfilled (snd (ts[i := (a, y)] ! j))}
       = {j. j < length ts \<and> \<not> isFulfilled (snd (ts ! j))}"
  using assms by (auto simp: nth_list_update)

lemma unfulfilled_update_done:
  assumes "i < length ts"
  shows "{j. j < length (ts[i := (a, Fulfilled r)]) \<and> \<not> isFulfilled (snd (ts[i := (a, Fulfilled r)] ! j))}
       = {j. j < length ts \<and> \<not> isFulfilled (snd (ts ! j))} - {i}"
  using assms by (auto simp: nth_list_update)

lemma forLoop_Inv:
  assumes "distinct (executing s)"
    and "set (executing s) = {i. i < length (tasks s) \<and> \<not> isFulfilled (snd (tasks s ! i))}"
    and "int (length (executing s)) < max limit 1"
    and "map fst (tasks s) @ td = work"
    and "length (results s) = length (filter (\<lambda>t. isFulfilled (snd t)) (tasks s))"
  shows "Inv limit work (forLoop limit td s)"
  using assms
proof (induction td arbitrary: s)
  case Nil
  have "executing s = []" if "allFulfilled (tasks s) (executing s)"
  proof (rule ccontr)
    assume "executing s \<noteq> []"
    then obtain i where i: "i \<in> set (executing s)" by (cases "executing s") auto
    then have "\<not> isFulfilled (snd (tasks s ! i))" using Nil.prems(2) by auto
    moreover have "isFulfilled (snd (tasks s ! i))"
      using that i by (simp add: allFulfilled_def list_all_iff)
    ultimately show False by simp
  qed
  then have x: "\<And>st. (if anyRejected (tasks s) (executing s) then Some False
            else if allFulfilled (tasks s) (executing s) then Some True else None) = Some True
          \<Longrightarrow> executing s = []"
    by (simp split: if_splits)
  have l: "int (length (executing s)) \<le> max limit 1" using Nil.prems(3) by simp
  show ?case
    unfolding Inv_def awaitAll_def forLoop.simps
    using Nil.prems(1,2,4,5) l x by simp
next
  case (Cons item rest)
  let ?s' = "s\<lparr>todo := rest, tasks := tasks s @ [(item, Queued)],
                executing := executing s @ [length (tasks s)]\<rparr>"
  have d: "distinct (executing ?s')" using Cons.prems(1,2) by auto
  have e: "set (executing ?s') = {i. i < length (tasks ?s') \<and> \<not> isFulfilled (snd (tasks ?s' ! i))}"
  proof (rule set_eqI)
    fix j
    let ?n = "length (tasks s)"
    have a: "j \<in> set (executing ?s') \<longleftrightarrow> j = ?n \<or> (j < ?n \<and> \<not> isFulfilled (snd (tasks s ! j)))"
      using Cons.prems(2) by auto
    have b: "j < ?n \<Longrightarrow> tasks ?s' ! j = tasks s ! j" by (simp add: nth_append)
    have c: "tasks ?s' ! ?n = (item, Queued)" by (simp add: nth_append)
    have "j < length (tasks ?s') \<and> \<not> isFulfilled (snd (tasks ?s' ! j))
          \<longleftrightarrow> j = ?n \<or> (j < ?n \<and> \<not> isFulfilled (snd (tasks s ! j)))"
    proof (cases "j < ?n")
      case True
      then show ?thesis using b by simp
    next
      case False
      then show ?thesis using c by (cases "j = ?n") simp_all
    qed
    then show "j \<in> set (executing ?s')
         \<longleftrightarrow> j \<in> {i. i < length (tasks ?s') \<and> \<not> isFulfilled (snd (tasks ?s' ! i))}"
      using a by simp
  qed
  have m: "map fst (tasks ?s') @ rest = work" using Cons.prems(4) by simp
  have r: "length (results ?s') = length (filter (\<lambda>t. isFulfilled (snd t)) (tasks ?s'))"
    using Cons.prems(5) by simp
  have l: "int (length (executing ?s')) \<le> max limit 1" using Cons.prems(3) by simp
  show ?case
  proof (cases "limit \<le> int (length (executing ?s'))")
    case True
    then have "forLoop limit (item # rest) s = awaitRace ?s'" by (simp add: Let_def)
    moreover have "Inv limit work (awaitRace ?s')"
      using d e m r l unfolding Inv_def awaitRace_def by simp
    ultimately show ?thesis by simp
  next
    case False
    then have f: "forLoop limit (item # rest) s = forLoop limit rest ?s'" by (simp add: Let_def)
    have "int (length (executing ?s')) < max limit 1" using False by simp
    then show ?thesis using Cons.IH [OF d e _ m r] f by simp
  qed
qed

lemma mapConcurrency_Inv: "Inv limit work (mapConcurrency work limit)"
  unfolding mapConcurrency_def by (rule forLoop_Inv) simp_all

lemma settled_cases:
  "settled m i f = m
   \<or> (\<exists>w snap. m = Awaiting w snap None \<and> i \<in> set snap \<and> settled m i f = Awaiting w snap (f w snap))"
  by (auto simp: settled_def split: ctl.splits option.splits)

lemma InvI:
  assumes "distinct (executing s)"
    and "set (executing s) = {i. i < length (tasks s) \<and> \<not> isFulfilled (snd (tasks s ! i))}"
    and "int (length (executing s)) \<le> max limit 1"
    and "\<And>snap. main s = Awaiting WaitRace snap (Some True) \<Longrightarrow>
           int (length (executing s)) < max limit 1"
    and "map fst (tasks s) @ todo s = work"
    and "\<And>snap st. main s = Awaiting WaitAll snap st \<Longrightarrow>
           todo s = [] \<and> set (executing s) \<subseteq> set snap
           \<and> (st = Some True \<longrightarrow> executing s = [])"
    and "\<And>rs. main s = Returned rs \<Longrightarrow> todo s = [] \<and> executing s = [] \<and> rs = results s"
    and "length (results s) = length (filter (\<lambda>t. isFulfilled (snd t)) (tasks s))"
  shows "Inv limit work s"
  unfolding Inv_def using assms by blast

lemma InvD:
  assumes "Inv limit work s"
  shows "distinct (executing s)"
    and "set (executing s) = {i. i < length (tasks s) \<and> \<not> isFulfilled (snd (tasks s ! i))}"
    and "int (length (executing s)) \<le> max limit 1"
    and "\<And>snap. main s = Awaiting WaitRace snap (Some True) \<Longrightarrow>
           int (length (executing s)) < max limit 1"
    and "map fst (tasks s) @ todo s = work"
    and "\<And>snap st. main s = Awaiting WaitAll snap st \<Longrightarrow>
           todo s = [] \<and> set (executing s) \<subseteq> set snap
           \<and> (st = Some True \<longrightarrow> executing s = [])"
    and "\<And>rs. main s = Returned rs \<Longrightarrow> todo s = [] \<and> executing s = [] \<and> rs = results s"
    and "length (results s) = length (filter (\<lambda>t. isFulfilled (snd t)) (tasks s))"
  using assms unfolding Inv_def by blast+

lemma Start_Inv:
  assumes inv: "Inv limit work s" and i: "i < length (tasks s)" and q: "snd (tasks s ! i) = Queued"
  shows "Inv limit work (s\<lparr>tasks := (tasks s)[i := (fst (tasks s ! i), Running)]\<rparr>)"
proof (rule InvI)
  let ?ts = "(tasks s)[i := (fst (tasks s ! i), Running)]"
  let ?s' = "s\<lparr>tasks := ?ts\<rparr>"
  have u: "{j. j < length ?ts \<and> \<not> isFulfilled (snd (?ts ! j))}
         = {j. j < length (tasks s) \<and> \<not> isFulfilled (snd (tasks s ! j))}"
    by (rule unfulfilled_update_same) (simp_all add: i q)
  show "distinct (executing ?s')" using InvD(1) [OF inv] by simp
  show "set (executing ?s') = {j. j < length (tasks ?s') \<and> \<not> isFulfilled (snd (tasks ?s' ! j))}"
    using InvD(2) [OF inv] u by simp
  show "int (length (executing ?s')) \<le> max limit 1" using InvD(3) [OF inv] by simp
  show "int (length (executing ?s')) < max limit 1"
    if "main ?s' = Awaiting WaitRace snap (Some True)" for snap
    using InvD(4) [OF inv, of snap] that by simp
  show "map fst (tasks ?s') @ todo ?s' = work"
    using InvD(5) [OF inv] map_fst_update [OF i, of Running] by simp
  show "todo ?s' = [] \<and> set (executing ?s') \<subseteq> set snap
        \<and> (st = Some True \<longrightarrow> executing ?s' = [])"
    if "main ?s' = Awaiting WaitAll snap st" for snap st
    using InvD(6) [OF inv, of snap st] that by simp
  show "todo ?s' = [] \<and> executing ?s' = [] \<and> rs = results ?s'"
    if "main ?s' = Returned rs" for rs
    using InvD(7) [OF inv, of rs] that by simp
  have "length (filter (\<lambda>t. isFulfilled (snd t)) ?ts)
      = length (filter (\<lambda>t. isFulfilled (snd t)) (tasks s))"
    by (rule filter_update_same) (simp_all add: i q)
  then show "length (results ?s') = length (filter (\<lambda>t. isFulfilled (snd t)) (tasks ?s'))"
    using InvD(8) [OF inv] by simp
qed

lemma Reject_Inv:
  assumes inv: "Inv limit work s" and i: "i < length (tasks s)" and q: "snd (tasks s ! i) = Running"
  shows "Inv limit work (s\<lparr>tasks := (tasks s)[i := (fst (tasks s ! i), Rejected)],
                            main := settled (main s) i (\<lambda>w snap. Some False)\<rparr>)"
proof (rule InvI)
  let ?ts = "(tasks s)[i := (fst (tasks s ! i), Rejected)]"
  let ?m = "settled (main s) i (\<lambda>w snap. Some False)"
  let ?s' = "s\<lparr>tasks := ?ts, main := ?m\<rparr>"
  have mc: "?m = main s \<or> (\<exists>w snap. ?m = Awaiting w snap (Some False))"
    using settled_cases [of "main s" i "\<lambda>w snap. Some False"] by auto
  have u: "{j. j < length ?ts \<and> \<not> isFulfilled (snd (?ts ! j))}
         = {j. j < length (tasks s) \<and> \<not> isFulfilled (snd (tasks s ! j))}"
    by (rule unfulfilled_update_same) (simp_all add: i q)
  show "distinct (executing ?s')" using InvD(1) [OF inv] by simp
  show "set (executing ?s') = {j. j < length (tasks ?s') \<and> \<not> isFulfilled (snd (tasks ?s' ! j))}"
    using InvD(2) [OF inv] u by simp
  show "int (length (executing ?s')) \<le> max limit 1" using InvD(3) [OF inv] by simp
  show "int (length (executing ?s')) < max limit 1"
    if "main ?s' = Awaiting WaitRace snap (Some True)" for snap
    using InvD(4) [OF inv, of snap] that mc by auto
  show "map fst (tasks ?s') @ todo ?s' = work"
    using InvD(5) [OF inv] map_fst_update [OF i, of Rejected] by simp
  show "todo ?s' = [] \<and> set (executing ?s') \<subseteq> set snap
        \<and> (st = Some True \<longrightarrow> executing ?s' = [])"
    if t: "main ?s' = Awaiting WaitAll snap st" for snap st
  proof -
    from settled_cases [of "main s" i "\<lambda>w snap. Some False"]
    consider "?m = main s" | st0 where "main s = Awaiting WaitAll snap st0" "st = Some False"
      using t by auto
    then show ?thesis
    proof cases
      case 1
      then show ?thesis using InvD(6) [OF inv, of snap st] t by simp
    next
      case 2
      then show ?thesis using InvD(6) [OF inv, of snap st0] by simp
    qed
  qed
  show "todo ?s' = [] \<and> executing ?s' = [] \<and> rs = results ?s'"
    if "main ?s' = Returned rs" for rs
    using InvD(7) [OF inv, of rs] that mc by auto
  have "length (filter (\<lambda>t. isFulfilled (snd t)) ?ts)
      = length (filter (\<lambda>t. isFulfilled (snd t)) (tasks s))"
    by (rule filter_update_same) (simp_all add: i q)
  then show "length (results ?s') = length (filter (\<lambda>t. isFulfilled (snd t)) (tasks ?s'))"
    using InvD(8) [OF inv] by simp
qed

lemma Fulfil_Inv:
  assumes inv: "Inv limit work s" and i: "i < length (tasks s)" and q: "snd (tasks s ! i) = Running"
  shows "Inv limit work
           (s\<lparr>tasks := (tasks s)[i := (fst (tasks s ! i), Fulfilled r)],
               results := results s @ [r],
               executing := spliceOut i (executing s),
               main := settled (main s) i
                         (\<lambda>w snap. case w of
                              WaitRace \<Rightarrow> Some True
                            | WaitAll \<Rightarrow>
                                if allFulfilled ((tasks s)[i := (fst (tasks s ! i), Fulfilled r)]) snap
                                then Some True else None)\<rparr>)"
proof (rule InvI)
  let ?ts = "(tasks s)[i := (fst (tasks s ! i), Fulfilled r)]"
  let ?f = "\<lambda>w snap. case w of WaitRace \<Rightarrow> Some True
                        | WaitAll \<Rightarrow> if allFulfilled ?ts snap then Some True else None"
  let ?m = "settled (main s) i ?f"
  let ?ex = "spliceOut i (executing s)"
  let ?s' = "s\<lparr>tasks := ?ts, results := results s @ [r], executing := ?ex, main := ?m\<rparr>"
  have mem: "i \<in> set (executing s)" using InvD(2) [OF inv] i q by simp
  have ex: "?ex = remove1 i (executing s)" using mem by (simp add: spliceOut_def)
  have dist: "distinct (executing s)" by (rule InvD(1) [OF inv])
  have setex: "set ?ex = set (executing s) - {i}" using ex dist by simp
  have len: "Suc (length ?ex) = length (executing s)"
    using ex mem by (simp add: length_remove1) (cases "executing s", auto)
  have u: "{j. j < length ?ts \<and> \<not> isFulfilled (snd (?ts ! j))}
         = {j. j < length (tasks s) \<and> \<not> isFulfilled (snd (tasks s ! j))} - {i}"
    by (rule unfulfilled_update_done) (rule i)
  have e2: "set ?ex = {j. j < length ?ts \<and> \<not> isFulfilled (snd (?ts ! j))}"
    using setex InvD(2) [OF inv] u by simp
  show "distinct (executing ?s')" using dist ex by simp
  show "set (executing ?s') = {j. j < length (tasks ?s') \<and> \<not> isFulfilled (snd (tasks ?s' ! j))}"
    using e2 by simp
  show "int (length (executing ?s')) \<le> max limit 1" using InvD(3) [OF inv] len by simp
  show "int (length (executing ?s')) < max limit 1"
    if "main ?s' = Awaiting WaitRace snap (Some True)" for snap
    using InvD(3) [OF inv] len by simp
  show "map fst (tasks ?s') @ todo ?s' = work"
    using InvD(5) [OF inv] map_fst_update [OF i, of "Fulfilled r"] by simp
  show "todo ?s' = [] \<and> set (executing ?s') \<subseteq> set snap
        \<and> (st = Some True \<longrightarrow> executing ?s' = [])"
    if t: "main ?s' = Awaiting WaitAll snap st" for snap st
  proof -
    from settled_cases [of "main s" i ?f]
    consider "?m = main s"
      | "main s = Awaiting WaitAll snap None" "i \<in> set snap"
        "st = (if allFulfilled ?ts snap then Some True else None)"
      using t by auto
    then show ?thesis
    proof cases
      case 1
      then have "todo s = [] \<and> set (executing s) \<subseteq> set snap
          \<and> (st = Some True \<longrightarrow> executing s = [])"
        using InvD(6) [OF inv, of snap st] t by simp
      then show ?thesis using mem setex by auto
    next
      case 2
      have td: "todo s = []" and sub: "set (executing s) \<subseteq> set snap"
        using InvD(6) [OF inv, of snap None] 2(1) by simp_all
      have "?ex = []" if a: "allFulfilled ?ts snap"
      proof (rule ccontr)
        assume "?ex \<noteq> []"
        then obtain j where j: "j \<in> set ?ex" by (cases ?ex) auto
        then have nf: "\<not> isFulfilled (snd (?ts ! j))" and jl: "j < length ?ts"
          using e2 by auto
        have "j \<in> set snap" using j setex sub by auto
        then have "isFulfilled (snd (?ts ! j))"
          using a by (simp add: allFulfilled_def list_all_iff)
        then show False using nf by simp
      qed
      then show ?thesis using td sub setex 2(3) by (auto split: if_splits)
    qed
  qed
  show "todo ?s' = [] \<and> executing ?s' = [] \<and> rs = results ?s'"
    if t: "main ?s' = Returned rs" for rs
  proof -
    have "main s = Returned rs"
      using settled_cases [of "main s" i ?f] t by auto
    then have "executing s = []" using InvD(7) [OF inv, of rs] by simp
    then show ?thesis using mem by simp
  qed
  have "length (filter (\<lambda>t. isFulfilled (snd t)) ?ts)
      = Suc (length (filter (\<lambda>t. isFulfilled (snd t)) (tasks s)))"
    by (rule filter_update_gain) (simp_all add: i q)
  then show "length (results ?s') = length (filter (\<lambda>t. isFulfilled (snd t)) (tasks ?s'))"
    using InvD(8) [OF inv] by simp
qed

lemma main_update_Inv:
  assumes inv: "Inv limit work s"
    and "\<And>snap. m \<noteq> Awaiting WaitRace snap (Some True)"
    and "\<And>snap st. m \<noteq> Awaiting WaitAll snap st"
    and "\<And>rs. m = Returned rs \<Longrightarrow> todo s = [] \<and> executing s = [] \<and> rs = results s"
  shows "Inv limit work (s\<lparr>main := m\<rparr>)"
proof (rule InvI)
  let ?s' = "s\<lparr>main := m\<rparr>"
  show "distinct (executing ?s')" using InvD(1) [OF inv] by simp
  have "set (executing s) = {i. i < length (tasks s) \<and> \<not> isFulfilled (snd (tasks s ! i))}"
    by (rule InvD(2) [OF inv])
  then show "set (executing ?s') = {i. i < length (tasks ?s') \<and> \<not> isFulfilled (snd (tasks ?s' ! i))}"
    by simp
  show "int (length (executing ?s')) \<le> max limit 1" using InvD(3) [OF inv] by simp
  show "int (length (executing ?s')) < max limit 1"
    if "main ?s' = Awaiting WaitRace snap (Some True)" for snap
    using that assms(2) [of snap] by simp
  show "map fst (tasks ?s') @ todo ?s' = work" using InvD(5) [OF inv] by simp
  show "todo ?s' = [] \<and> set (executing ?s') \<subseteq> set snap
        \<and> (st = Some True \<longrightarrow> executing ?s' = [])"
    if "main ?s' = Awaiting WaitAll snap st" for snap st
    using that assms(3) [of snap st] by simp
  show "todo ?s' = [] \<and> executing ?s' = [] \<and> rs = results ?s'"
    if "main ?s' = Returned rs" for rs
    using that assms(4) [of rs] by simp
  show "length (results ?s') = length (filter (\<lambda>t. isFulfilled (snd t)) (tasks ?s'))"
    using InvD(8) [OF inv] by simp
qed

lemma step_Inv:
  assumes inv: "Inv limit work s" and st: "step limit e s = Some s'"
  shows "Inv limit work s'"
proof (cases e)
  case (Start i)
  then have c: "i < length (tasks s)" "snd (tasks s ! i) = Queued"
      and s': "s' = s\<lparr>tasks := (tasks s)[i := (fst (tasks s ! i), Running)]\<rparr>"
    using st by (simp_all split: if_splits)
  show ?thesis unfolding s' using inv c by (rule Start_Inv)
next
  case (Fulfil i r)
  then have c: "i < length (tasks s)" "snd (tasks s ! i) = Running"
    using st by (simp_all split: if_splits)
  then have s': "s' = s\<lparr>tasks := (tasks s)[i := (fst (tasks s ! i), Fulfilled r)],
               results := results s @ [r],
               executing := spliceOut i (executing s),
               main := settled (main s) i
                         (\<lambda>w snap. case w of
                              WaitRace \<Rightarrow> Some True
                            | WaitAll \<Rightarrow>
                                if allFulfilled ((tasks s)[i := (fst (tasks s ! i), Fulfilled r)]) snap
                                then Some True else None)\<rparr>"
    using st Fulfil by (simp add: Let_def)
  show ?thesis unfolding s' using inv c by (rule Fulfil_Inv)
next
  case (Reject i)
  then have c: "i < length (tasks s)" "snd (tasks s ! i) = Running"
    using st by (simp_all split: if_splits)
  then have s': "s' = s\<lparr>tasks := (tasks s)[i := (fst (tasks s ! i), Rejected)],
                            main := settled (main s) i (\<lambda>w snap. Some False)\<rparr>"
    using st Reject by simp
  show ?thesis unfolding s' using inv c by (rule Reject_Inv)
next
  case Resume
  show ?thesis
  proof (cases "main s")
    case (Awaiting w snap ost)
    show ?thesis
    proof (cases ost)
      case None
      then show ?thesis using st Resume Awaiting by simp
    next
      case (Some b)
      show ?thesis
      proof (cases b)
        case False
        then have s': "s' = s\<lparr>main := Thrown\<rparr>" using st Resume Awaiting Some by simp
        show ?thesis unfolding s' using inv by (rule main_update_Inv) simp_all
      next
        case True
        show ?thesis
        proof (cases w)
          case WaitRace
          then have s': "s' = forLoop limit (todo s) s"
            using st Resume Awaiting Some True by simp
          have l: "int (length (executing s)) < max limit 1"
            using InvD(4) [OF inv, of snap] Awaiting Some True WaitRace by simp
          show ?thesis
            unfolding s'
            by (rule forLoop_Inv [OF InvD(1) [OF inv] InvD(2) [OF inv] l InvD(5) [OF inv]
                  InvD(8) [OF inv]])
        next
          case WaitAll
          then have s': "s' = s\<lparr>main := Returned (results s)\<rparr>"
            using st Resume Awaiting Some True by simp
          have a: "todo s = [] \<and> set (executing s) \<subseteq> set snap
                   \<and> (Some True = Some True \<longrightarrow> executing s = [])"
            using Awaiting Some True WaitAll by (intro InvD(6) [OF inv]) simp
          show ?thesis unfolding s' using inv
            by (rule main_update_Inv) (use a in simp_all)
        qed
      qed
    qed
  next
    case Synchronous
    then show ?thesis using st Resume by simp
  next
    case (Returned rs)
    then show ?thesis using st Resume by simp
  next
    case Thrown
    then show ?thesis using st Resume by simp
  qed
qed

lemma run_Inv:
  "Inv limit work s \<Longrightarrow> run limit evs s = Some s' \<Longrightarrow> Inv limit work s'"
proof (induction evs arbitrary: s)
  case Nil
  then show ?case by simp
next
  case (Cons e evs)
  then obtain s1 where s1: "step limit e s = Some s1" "run limit evs s1 = Some s'"
    by (auto split: option.splits)
  show ?case using Cons.IH [OF step_Inv [OF Cons.prems(1) s1(1)] s1(2)] .
qed



lemma returned_all_done:
  assumes inv: "Inv limit work s" and r: "main s = Returned rs"
  shows "todo s = [] \<and> map fst (tasks s) = work
       \<and> (\<forall>t \<in> set (tasks s). isFulfilled (snd t))
       \<and> rs = results s \<and> length rs = length work"
proof -
  have a7: "todo s = [] \<and> executing s = [] \<and> rs = results s" using r by (rule InvD(7) [OF inv])
  then have a: "todo s = []" "executing s = []" "rs = results s" by simp_all
  have "map fst (tasks s) @ todo s = work" by (rule InvD(5) [OF inv])
  then have m: "map fst (tasks s) = work" by (simp add: a(1))
  have "set (executing s) = {i. i < length (tasks s) \<and> \<not> isFulfilled (snd (tasks s ! i))}"
    by (rule InvD(2) [OF inv])
  then have e: "{i. i < length (tasks s) \<and> \<not> isFulfilled (snd (tasks s ! i))} = {}"
    by (simp add: a(2))
  have f: "\<forall>t \<in> set (tasks s). isFulfilled (snd t)"
  proof
    fix t assume "t \<in> set (tasks s)"
    then obtain i where i: "i < length (tasks s)" "tasks s ! i = t" by (auto simp: in_set_conv_nth)
    have "i \<notin> {i. i < length (tasks s) \<and> \<not> isFulfilled (snd (tasks s ! i))}"
      unfolding e by simp
    then show "isFulfilled (snd t)" using i by simp
  qed
  then have "filter (\<lambda>t. isFulfilled (snd t)) (tasks s) = tasks s" by simp
  moreover have "length (results s) = length (filter (\<lambda>t. isFulfilled (snd t)) (tasks s))"
    by (rule InvD(8) [OF inv])
  ultimately have "length (results s) = length (tasks s)" by simp
  also have "\<dots> = length (map fst (tasks s))" by simp
  also have "\<dots> = length work" by (simp only: m)
  finally show ?thesis using a m f by simp
qed


lemma settled_Thrown: "settled Thrown i f = Thrown"
  by (simp add: settled_def)

lemma step_Thrown:
  assumes "main s = Thrown" "step limit e s = Some s1"
  shows "main s1 = Thrown \<and> todo s1 = todo s \<and> length (tasks s1) = length (tasks s)"
proof (cases e)
  case (Start i)
  then show ?thesis using assms by (auto split: if_splits)
next
  case (Fulfil i r)
  then show ?thesis using assms by (auto simp: Let_def settled_Thrown split: if_splits)
next
  case (Reject i)
  then show ?thesis using assms by (auto simp: settled_Thrown split: if_splits)
next
  case Resume
  then show ?thesis using assms by simp
qed

lemma thrown_stays:
  "main s = Thrown \<Longrightarrow> run limit evs s = Some s' \<Longrightarrow>
   main s' = Thrown \<and> todo s' = todo s \<and> length (tasks s') = length (tasks s)"
proof (induction evs arbitrary: s)
  case Nil
  then show ?case by simp
next
  case (Cons e evs)
  then obtain s1 where s1: "step limit e s = Some s1" "run limit evs s1 = Some s'"
    by (auto split: option.splits)
  have a: "main s1 = Thrown \<and> todo s1 = todo s \<and> length (tasks s1) = length (tasks s)"
    using Cons.prems(1) s1(1) by (rule step_Thrown)
  then have "main s' = Thrown \<and> todo s' = todo s1 \<and> length (tasks s') = length (tasks s1)"
    using Cons.IH [of s1] s1(2) by simp
  then show ?case using a by simp
qed

lemma forLoop_tasks:
  "\<exists>rest. tasks (forLoop limit td s) = tasks s @ rest \<and> (\<forall>t \<in> set rest. snd t = Queued)"
proof (induction td arbitrary: s)
  case Nil
  then show ?case by (simp add: awaitAll_def)
next
  case (Cons item rest)
  let ?s' = "s\<lparr>todo := rest, tasks := tasks s @ [(item, Queued)],
                executing := executing s @ [length (tasks s)]\<rparr>"
  show ?case
  proof (cases "limit \<le> int (length (executing ?s'))")
    case True
    then have "tasks (forLoop limit (item # rest) s) = tasks s @ [(item, Queued)]"
      by (simp add: Let_def awaitRace_def)
    then show ?thesis by simp
  next
    case False
    then have f: "forLoop limit (item # rest) s = forLoop limit rest ?s'" by (simp add: Let_def)
    obtain added where m: "tasks (forLoop limit rest ?s') = tasks ?s' @ added"
        "\<forall>t \<in> set added. snd t = Queued"
      using Cons.IH [of ?s'] by blast
    have "tasks (forLoop limit (item # rest) s) = tasks s @ ((item, Queued) # added)"
      using f m(1) by simp
    moreover have "\<forall>t \<in> set ((item, Queued) # added). snd t = Queued" using m(2) by simp
    ultimately show ?thesis by blast
  qed
qed









lemma run_append:
  "run limit (xs @ ys) s = (case run limit xs s of None \<Rightarrow> None | Some s1 \<Rightarrow> run limit ys s1)"
  by (induction xs arbitrary: s) (auto split: option.splits)

lemma rejected_forLoop: "rejected s i \<Longrightarrow> rejected (forLoop limit td s) i"
proof -
  assume r: "rejected s i"
  obtain added where m: "tasks (forLoop limit td s) = tasks s @ added"
    using forLoop_tasks [of limit td s] by blast
  show ?thesis using r by (simp add: rejected_def m nth_append)
qed

lemma step_rejected:
  assumes "step limit e s = Some s1" "rejected s i"
  shows "rejected s1 i"
proof (cases e)
  case (Start j)
  then show ?thesis
    using assms by (auto simp: rejected_def nth_list_update split: if_splits)
next
  case (Fulfil j r)
  then show ?thesis
    using assms by (auto simp: rejected_def Let_def nth_list_update split: if_splits)
next
  case (Reject j)
  then show ?thesis
    using assms by (auto simp: rejected_def nth_list_update split: if_splits)
next
  case Resume
  show ?thesis
  proof (cases "main s")
    case (Awaiting w snap ost)
    have "s1 = forLoop limit (todo s) s \<or> tasks s1 = tasks s"
      using assms Resume Awaiting
      by (cases ost; cases w) (auto split: bool.splits if_splits)
    then show ?thesis
    proof
      assume "s1 = forLoop limit (todo s) s"
      then show ?thesis using assms(2) by (simp add: rejected_forLoop)
    next
      assume "tasks s1 = tasks s"
      then show ?thesis using assms(2) by (simp add: rejected_def)
    qed
  qed (use assms Resume in simp_all)
qed

lemma run_rejected:
  "run limit evs s = Some s' \<Longrightarrow> rejected s i \<Longrightarrow> rejected s' i"
proof (induction evs arbitrary: s)
  case Nil
  then show ?case by simp
next
  case (Cons e evs)
  then obtain s1 where s1: "step limit e s = Some s1" "run limit evs s1 = Some s'"
    by (auto split: option.splits)
  show ?case
    using Cons.IH [OF s1(2) step_rejected [OF s1(1) Cons.prems(2)]] .
qed

lemma step_Reject_rejected:
  assumes "step limit (Reject i) s = Some s1"
  shows "rejected s1 i"
  using assms by (auto simp: rejected_def split: if_splits)

lemma Reject_in_run:
  assumes "run limit evs s = Some s'" "Reject i \<in> set evs"
  shows "rejected s' i"
proof -
  obtain xs ys where evs: "evs = xs @ Reject i # ys"
    using assms(2) by (auto simp: in_set_conv_decomp)
  obtain s1 where s1: "run limit xs s = Some s1" "run limit (Reject i # ys) s1 = Some s'"
    using assms(1) unfolding evs run_append by (auto split: option.splits)
  obtain s2 where s2: "step limit (Reject i) s1 = Some s2" "run limit ys s2 = Some s'"
    using s1(2) by (auto split: option.splits)
  show ?thesis using run_rejected [OF s2(2) step_Reject_rejected [OF s2(1)]] .
qed

lemma rejected_not_Returned:
  assumes inv: "Inv limit work s" and r: "rejected s i"
  shows "main s \<noteq> Returned rs"
proof
  assume "main s = Returned rs"
  then have "\<forall>t \<in> set (tasks s). isFulfilled (snd t)"
    using returned_all_done [OF inv] by blast
  moreover have "tasks s ! i \<in> set (tasks s)" using r by (simp add: rejected_def)
  ultimately have "isFulfilled (snd (tasks s ! i))" by blast
  then show False using r by (simp add: rejected_def)
qed

lemmas exec_eval = mapConcurrency_def awaitRace_def awaitAll_def anyRejected_def
  allFulfilled_def spliceOut_def settled_def Let_def inFlight_def

lemma fullTrace_runs: "run 2 fullTrace threeItems = Some fullResult"
  by (simp add: fullTrace_def threeItems_def fullResult_def exec_eval)

lemma failingTrace_runs: "run 2 failingTrace threeItems = Some failedResult"
  by (simp add: failingTrace_def threeItems_def failedResult_def exec_eval)

lemma failed_continues:
  "run 2 [Fulfil 1 5] failedResult = Some (failedResult\<lparr>tasks := [(7, Rejected), (8, Fulfilled 5)],
     executing := [0], results := [5]\<rparr>)"
  by (simp add: failedResult_def exec_eval)



section \<open>Claims on the synchronisation of one feed and on feed health\<close>

text \<open>
  C3, as stated, fails on the code: a parse that succeeds does not always end with
  \<open>errorCount\<close> 0 and \<open>lastFetched\<close> set. The feed of the example has failed four times; its
  parse now succeeds with one item whose \<^verbatim>\<open>pubDate\<close> is not a date. The insert of the
  article throws, the \<^verbatim>\<open>catch\<close> branch runs, and the row ends with \<open>errorCount\<close> 5 and
  \<open>lastFetched\<close> still null.
\<close>

theorem refreshFeed_parse_success_counterexample:
  "getFeed exampleStore 1 = Some exampleFeed
   \<and> refreshFeed parsesAsDate 7 (Success undatedFeed) exampleFeed (exampleStore, 0)
       = Done (writeFeed 1 (countFailure exampleFeed) exampleStore, 0)
   \<and> getFeed (fst (stateOf (refreshFeed parsesAsDate 7 (Success undatedFeed) exampleFeed
         (exampleStore, 0)))) 1
       = Some (exampleFeed\<lparr>errorCount := Some 5\<rparr>)
   \<and> errorCount (exampleFeed\<lparr>errorCount := Some 5\<rparr>) \<noteq> Some 0
   \<and> lastFetched (exampleFeed\<lparr>errorCount := Some 5\<rparr>) \<noteq> Some (At 7)"
proof -
  have i: "feed.ident exampleFeed = 1" by (simp add: exampleFeed_def)
  have g: "getFeed exampleStore 1 = Some exampleFeed"
    by (simp add: getFeed_def exampleStore_def i)
  have l: "getArticleByGuid exampleStore 1 (guidOf undatedItem) = Returns None"
    by (simp add: getArticleByGuid_def guidOf_def truthyVal_def undatedItem_def blankItem_def
        exampleStore_def)
  have p: "publishedAt (articleOf parsesAsDate 7 1 undatedItem) = Some InvalidDate"
    by (simp add: articleOf_def undatedItem_def blankItem_def truthy_def parsesAsDate_def str_def)
  have t: "insertItems parsesAsDate 7 1 (take 50 (itemsOf undatedFeed)) (exampleStore, 0)
             = Threw (exampleStore, 0)"
    using l p by (simp add: itemsOf_def undatedFeed_def createArticle_def)
  have r: "int4 (orZero (errorCount exampleFeed) + 1)"
    by (simp add: int4_def orZero_def exampleFeed_def)
  have d: "refreshFeed parsesAsDate 7 (Success undatedFeed) exampleFeed (exampleStore, 0)
       = Done (writeFeed 1 (countFailure exampleFeed) exampleStore, 0)"
    using refresh_loop_threw [OF r, of parsesAsDate 7 undatedFeed exampleStore 0 exampleStore 0] t
    by (simp add: i)
  have "getFeed (writeFeed 1 (countFailure exampleFeed) exampleStore) 1
       = Some (exampleFeed\<lparr>errorCount := Some 5\<rparr>)"
    using getFeed_writeFeed [OF g, of "countFailure exampleFeed"]
    by (simp add: countFailure_row) (simp add: orZero_def exampleFeed_def)
  then show ?thesis
    using g d by (simp add: exampleFeed_def)
qed

text \<open>
  C3, amended. One sync of a feed whose row \<open>f\<close> is the one stored. When the parse fails,
  or when it succeeds and a storage call throws in the item loop, the stored row
  afterwards is \<open>f\<close> with \<open>errorCount\<close> one higher (a null count reads as 0) and nothing
  else changed, in particular \<open>lastFetched\<close>, as long as the new count fits the 32-bit
  column; a failed parse creates no article. When the new count does not fit, the update
  is refused, the callback throws and the store is as it was. When the parse succeeds and
  the item loop completes, the stored row afterwards is \<open>f\<close> with \<open>errorCount\<close> 0 and
  \<open>lastFetched\<close> the current time, however many articles were created; the loop completes
  whenever no item of the batch has an object for a guid or a \<^verbatim>\<open>pubDate\<close> that is not a
  date.
\<close>

theorem refreshFeed_errorCount_lastFetched:
  assumes "getFeed st (feed.ident f) = Some f"
  shows "(int4 (orZero (errorCount f) + 1) \<longrightarrow>
            (\<exists>sn. refreshFeed valid now (Failure err) f (st, n) = Done sn)
          \<and> getFeed (fst (stateOf (refreshFeed valid now (Failure err) f (st, n)))) (feed.ident f)
              = Some (f\<lparr>errorCount := Some (orZero (errorCount f) + 1)\<rparr>)
          \<and> articles (fst (stateOf (refreshFeed valid now (Failure err) f (st, n)))) = articles st)
       \<and> (\<not> int4 (orZero (errorCount f) + 1) \<longrightarrow>
            refreshFeed valid now (Failure err) f (st, n) = Threw (st, n))
       \<and> (int4 (orZero (errorCount f) + 1)
            \<and> (\<exists>sn. insertItems valid now (feed.ident f) (take 50 (itemsOf pf)) (st, n) = Threw sn) \<longrightarrow>
            (\<exists>sn. refreshFeed valid now (Success pf) f (st, n) = Done sn)
          \<and> getFeed (fst (stateOf (refreshFeed valid now (Success pf) f (st, n)))) (feed.ident f)
              = Some (f\<lparr>errorCount := Some (orZero (errorCount f) + 1)\<rparr>))
       \<and> ((\<exists>sn. insertItems valid now (feed.ident f) (take 50 (itemsOf pf)) (st, n) = Done sn) \<longrightarrow>
            (\<exists>sn. refreshFeed valid now (Success pf) f (st, n) = Done sn)
          \<and> getFeed (fst (stateOf (refreshFeed valid now (Success pf) f (st, n)))) (feed.ident f)
              = Some (f\<lparr>lastFetched := Some (At now), errorCount := Some 0\<rparr>))
       \<and> ((\<forall>it \<in> set (take 50 (itemsOf pf)).
              guidOf it \<noteq> Obj \<and> (truthy (pubDate it) \<longrightarrow> valid (the (pubDate it)))) \<longrightarrow>
            getFeed (fst (stateOf (refreshFeed valid now (Success pf) f (st, n)))) (feed.ident f)
              = Some (f\<lparr>lastFetched := Some (At now), errorCount := Some 0\<rparr>))"
proof -
  let ?i = "feed.ident f"
  let ?loop = "insertItems valid now ?i (take 50 (itemsOf pf)) (st, n)"
  have loop_feed: "getFeed (fst (stateOf ?loop)) ?i = Some f"
    using getFeed_insertItems [where valid = valid and now = now and fid = ?i
        and its = "take 50 (itemsOf pf)" and sn = "(st, n)" and i = ?i] assms by simp
  have a: "int4 (orZero (errorCount f) + 1) \<Longrightarrow>
            (\<exists>sn. refreshFeed valid now (Failure err) f (st, n) = Done sn)
          \<and> getFeed (fst (stateOf (refreshFeed valid now (Failure err) f (st, n)))) ?i
              = Some (f\<lparr>errorCount := Some (orZero (errorCount f) + 1)\<rparr>)
          \<and> articles (fst (stateOf (refreshFeed valid now (Failure err) f (st, n)))) = articles st"
    using getFeed_writeFeed [OF assms, of "countFailure f"]
    by (simp add: refresh_failure countFailure_row)
  have b: "\<not> int4 (orZero (errorCount f) + 1) \<Longrightarrow>
            refreshFeed valid now (Failure err) f (st, n) = Threw (st, n)"
    by (simp add: refreshFeed_def catchBranch_def updateFeed_def countFailure_def)
  have c: "(\<exists>sn. refreshFeed valid now (Success pf) f (st, n) = Done sn)
          \<and> getFeed (fst (stateOf (refreshFeed valid now (Success pf) f (st, n)))) ?i
              = Some (f\<lparr>errorCount := Some (orZero (errorCount f) + 1)\<rparr>)"
    if r: "int4 (orZero (errorCount f) + 1)" and t: "?loop = Threw sn" for sn
  proof -
    obtain s' n' where sn: "sn = (s', n')" by (cases sn)
    have "getFeed s' ?i = Some f" using loop_feed t sn by simp
    then show ?thesis
      using refresh_loop_threw [OF r, of valid now pf st n s' n'] t sn
        getFeed_writeFeed [of s' ?i f "countFailure f"]
      by (simp add: countFailure_row)
  qed
  have d: "(\<exists>sn. refreshFeed valid now (Success pf) f (st, n) = Done sn)
          \<and> getFeed (fst (stateOf (refreshFeed valid now (Success pf) f (st, n)))) ?i
              = Some (f\<lparr>lastFetched := Some (At now), errorCount := Some 0\<rparr>)"
    if t: "?loop = Done sn" for sn
  proof -
    obtain s' n' where sn: "sn = (s', n')" by (cases sn)
    have "getFeed s' ?i = Some f" using loop_feed t sn by simp
    then show ?thesis
      using refresh_loop_done [of valid now f pf st n s' n'] t sn
        getFeed_writeFeed [of s' ?i f "\<lparr>set_lastFetched = Some (At now), set_errorCount = Some 0\<rparr>"]
      by (simp add: success_row)
  qed
  have e: "getFeed (fst (stateOf (refreshFeed valid now (Success pf) f (st, n)))) ?i
              = Some (f\<lparr>lastFetched := Some (At now), errorCount := Some 0\<rparr>)"
    if "\<forall>it \<in> set (take 50 (itemsOf pf)).
          guidOf it \<noteq> Obj \<and> (truthy (pubDate it) \<longrightarrow> valid (the (pubDate it)))"
    using insertItems_storable [OF that, of now ?i st n] d by blast
  from a b c d e show ?thesis by blast
qed

theorem refreshFeed_errorCount_lastFetched_witness:
  "getFeed exampleStore 1 = Some exampleFeed
   \<and> errorCount exampleFeed = Some 4
   \<and> int4 (orZero (errorCount exampleFeed) + 1)
   \<and> take 50 (itemsOf blankFeed) = [blankItem, blankItem]
   \<and> guidOf blankItem \<noteq> Obj
   \<and> \<not> truthy (pubDate blankItem)
   \<and> getFeed (fst (stateOf (refreshFeed parsesAsDate 7 (Failure []) exampleFeed (exampleStore, 0)))) 1
       = Some (exampleFeed\<lparr>errorCount := Some 5\<rparr>)
   \<and> getFeed (fst (stateOf (refreshFeed parsesAsDate 7 (Success blankFeed) exampleFeed (exampleStore, 0)))) 1
       = Some (exampleFeed\<lparr>lastFetched := Some (At 7), errorCount := Some 0\<rparr>)"
proof -
  have i: "feed.ident exampleFeed = 1" by (simp add: exampleFeed_def)
  have e: "errorCount exampleFeed = Some 4" by (simp add: exampleFeed_def)
  have z: "orZero (errorCount exampleFeed) + 1 = 5" by (simp add: e orZero_def)
  have h: "getFeed exampleStore (feed.ident exampleFeed) = Some exampleFeed"
    by (simp add: getFeed_def exampleStore_def)
  have r: "int4 (orZero (errorCount exampleFeed) + 1)" by (simp add: z int4_def)
  have s: "\<forall>it \<in> set (take 50 (itemsOf blankFeed)).
         guidOf it \<noteq> Obj \<and> (truthy (pubDate it) \<longrightarrow> parsesAsDate (the (pubDate it)))"
    by (simp add: itemsOf_def blankFeed_def guidOf_def truthyVal_def truthy_def blankItem_def)
  have c: "getFeed (fst (stateOf (refreshFeed parsesAsDate 7 (Failure []) exampleFeed (exampleStore, 0))))
             (feed.ident exampleFeed)
           = Some (exampleFeed\<lparr>errorCount := Some (orZero (errorCount exampleFeed) + 1)\<rparr>)
         \<and> getFeed (fst (stateOf (refreshFeed parsesAsDate 7 (Success blankFeed) exampleFeed
               (exampleStore, 0)))) (feed.ident exampleFeed)
           = Some (exampleFeed\<lparr>lastFetched := Some (At 7), errorCount := Some 0\<rparr>)"
    using refreshFeed_errorCount_lastFetched [OF h, of parsesAsDate 7 "[]" 0 blankFeed] r s
    by blast
  have g: "getFeed exampleStore 1 = Some exampleFeed" using h unfolding i .
  have b: "take 50 (itemsOf blankFeed) = [blankItem, blankItem]"
    by (simp add: itemsOf_def blankFeed_def)
  have k: "guidOf blankItem \<noteq> Obj" "\<not> truthy (pubDate blankItem)"
    by (simp_all add: guidOf_def truthyVal_def truthy_def blankItem_def)
  from c g e r b k show ?thesis unfolding i z by blast
qed

text \<open>
  C4. Re-running the sync of a feed whose items all have their article already (every
  \<open>(feedId, guid)\<close> derived from the first 50 items is found) creates no article: the
  counter of new articles and the table of articles are unchanged, and the row still gets
  \<open>errorCount\<close> 0 and \<open>lastFetched\<close> the current time. In particular a second sync with the
  same parse result, after a first one whose item loop completed, creates nothing.
\<close>

theorem resync_creates_no_articles:
  assumes "getFeed st (feed.ident f) = Some f"
  shows "((\<forall>it \<in> set (take 50 (itemsOf pf)).
            \<exists>a. getArticleByGuid st (feed.ident f) (guidOf it) = Returns (Some a)) \<longrightarrow>
          (\<exists>s'. refreshFeed valid now (Success pf) f (st, n) = Done (s', n)
               \<and> articles s' = articles st
               \<and> getFeed s' (feed.ident f)
                   = Some (f\<lparr>lastFetched := Some (At now), errorCount := Some 0\<rparr>)))
     \<and> ((\<exists>sn. insertItems valid now (feed.ident f) (take 50 (itemsOf pf)) (st, n) = Done sn) \<longrightarrow>
         (let r1 = stateOf (refreshFeed valid now (Success pf) f (st, n));
              f1 = the (getFeed (fst r1) (feed.ident f))
          in \<exists>s2. refreshFeed valid now' (Success pf) f1 r1 = Done (s2, snd r1)
                 \<and> articles s2 = articles (fst r1)
                 \<and> getFeed s2 (feed.ident f)
                     = Some (f\<lparr>lastFetched := Some (At now'), errorCount := Some 0\<rparr>)))"
proof -
  let ?i = "feed.ident f"
  let ?ok = "\<lambda>t. \<lparr>set_lastFetched = Some (At t), set_errorCount = Some 0\<rparr>"
  have first: "\<exists>s'. refreshFeed valid t (Success pf) g (s, m) = Done (s', m)
               \<and> articles s' = articles s
               \<and> getFeed s' (feed.ident g)
                   = Some (g\<lparr>lastFetched := Some (At t), errorCount := Some 0\<rparr>)"
    if g: "getFeed s (feed.ident g) = Some g"
      and p: "\<forall>it \<in> set (take 50 (itemsOf pf)).
            \<exists>a. getArticleByGuid s (feed.ident g) (guidOf it) = Returns (Some a)"
    for s g t m
  proof -
    have "insertItems valid t (feed.ident g) (take 50 (itemsOf pf)) (s, m) = Done (s, m)"
      using p by (rule insertItems_present)
    then have "refreshFeed valid t (Success pf) g (s, m)
        = Done (writeFeed (feed.ident g) (?ok t) s, m)"
      by (rule refresh_loop_done)
    then show ?thesis
      using getFeed_writeFeed [OF g, of "?ok t"] by (simp add: success_row)
  qed
  have second: "let r1 = stateOf (refreshFeed valid now (Success pf) f (st, n));
              f1 = the (getFeed (fst r1) ?i)
          in \<exists>s2. refreshFeed valid now' (Success pf) f1 r1 = Done (s2, snd r1)
                 \<and> articles s2 = articles (fst r1)
                 \<and> getFeed s2 ?i
                     = Some (f\<lparr>lastFetched := Some (At now'), errorCount := Some 0\<rparr>)"
    if l: "insertItems valid now ?i (take 50 (itemsOf pf)) (st, n) = Done sn" for sn
  proof -
    obtain s1 n1 where sn: "sn = (s1, n1)" by (cases sn)
    let ?s1' = "writeFeed ?i (?ok now) s1"
    let ?f1 = "f\<lparr>lastFetched := Some (At now), errorCount := Some 0\<rparr>"
    have r1: "refreshFeed valid now (Success pf) f (st, n) = Done (?s1', n1)"
      using refresh_loop_done [of valid now f pf st n s1 n1] l sn by simp
    have "getFeed s1 ?i = Some f"
      using getFeed_insertItems [where valid = valid and now = now and fid = ?i
          and its = "take 50 (itemsOf pf)" and sn = "(st, n)" and i = ?i] l sn assms by simp
    then have g1: "getFeed ?s1' ?i = Some ?f1"
      using getFeed_writeFeed [of s1 ?i f "?ok now"] by (simp add: success_row)
    have i1: "feed.ident ?f1 = ?i" by simp
    have p1: "\<forall>it \<in> set (take 50 (itemsOf pf)).
            \<exists>a. getArticleByGuid ?s1' (feed.ident ?f1) (guidOf it) = Returns (Some a)"
    proof
      fix it assume "it \<in> set (take 50 (itemsOf pf))"
      then obtain a where "getArticleByGuid s1 ?i (guidOf it) = Returns (Some a)"
        using insertItems_all_present [OF l [unfolded sn]] by auto
      then show "\<exists>a. getArticleByGuid ?s1' (feed.ident ?f1) (guidOf it) = Returns (Some a)"
        by (cases "guidOf it") (auto simp: getArticleByGuid_def)
    qed
    obtain s2 where "refreshFeed valid now' (Success pf) ?f1 (?s1', n1) = Done (s2, n1)"
        "articles s2 = articles ?s1'"
        "getFeed s2 (feed.ident ?f1)
           = Some (?f1\<lparr>lastFetched := Some (At now'), errorCount := Some 0\<rparr>)"
      using first [of ?s1' ?f1 now' n1] g1 p1 by auto
    then show ?thesis
      by (simp add: r1 g1 Let_def)
  qed
  show ?thesis
    using first [OF assms, of now n] second by blast
qed

theorem resync_creates_no_articles_witness:
  "getFeed exampleStore 1 = Some exampleFeed
   \<and> (\<exists>sn. insertItems parsesAsDate 7 1 (take 50 (itemsOf blankFeed)) (exampleStore, 0) = Done sn)
   \<and> (let r1 = stateOf (refreshFeed parsesAsDate 7 (Success blankFeed) exampleFeed (exampleStore, 0));
          f1 = the (getFeed (fst r1) 1)
      in \<exists>s2. refreshFeed parsesAsDate 9 (Success blankFeed) f1 r1 = Done (s2, snd r1)
             \<and> articles s2 = articles (fst r1)
             \<and> getFeed s2 1
                 = Some (exampleFeed\<lparr>lastFetched := Some (At 9), errorCount := Some 0\<rparr>))"
proof -
  have i: "feed.ident exampleFeed = 1" by (simp add: exampleFeed_def)
  have h: "getFeed exampleStore (feed.ident exampleFeed) = Some exampleFeed"
    by (simp add: getFeed_def exampleStore_def)
  have g: "getFeed exampleStore 1 = Some exampleFeed" using h unfolding i .
  have s: "\<forall>it \<in> set (take 50 (itemsOf blankFeed)).
         guidOf it \<noteq> Obj \<and> (truthy (pubDate it) \<longrightarrow> parsesAsDate (the (pubDate it)))"
    by (simp add: itemsOf_def blankFeed_def guidOf_def truthyVal_def truthy_def blankItem_def)
  have l: "\<exists>sn. insertItems parsesAsDate 7 (feed.ident exampleFeed) (take 50 (itemsOf blankFeed))
              (exampleStore, 0) = Done sn"
    using insertItems_storable [OF s] by blast
  have "let r1 = stateOf (refreshFeed parsesAsDate 7 (Success blankFeed) exampleFeed (exampleStore, 0));
          f1 = the (getFeed (fst r1) (feed.ident exampleFeed))
      in \<exists>s2. refreshFeed parsesAsDate 9 (Success blankFeed) f1 r1 = Done (s2, snd r1)
             \<and> articles s2 = articles (fst r1)
             \<and> getFeed s2 (feed.ident exampleFeed)
                 = Some (exampleFeed\<lparr>lastFetched := Some (At 9), errorCount := Some 0\<rparr>)"
    using resync_creates_no_articles [OF h, of blankFeed parsesAsDate 7 0 9] l by blast
  with g l show ?thesis unfolding i by blast
qed

text \<open>
  C10. The item loop takes the items one after the other, and the pair \<open>(feedId, guid)\<close>
  stays unique: if no two articles of the store share it before the loop, none do after
  it, for the loop alone and for a whole sync with any parse result, however the loop
  ends. An item whose derived
  guid is that of an earlier item of the same batch is skipped: the loop ends in the same
  state as without it. An item without guid, link and title derives the empty guid.
\<close>

theorem item_loop_guid_unique:
  "(distinct (map akey (articles st)) \<longrightarrow>
      distinct (map akey (articles (fst (stateOf (insertItems valid now fid its (st, n))))))
    \<and> distinct (map akey (articles (fst (stateOf (refreshFeed valid now result f (st, n)))))))
   \<and> (guidOf b \<in> guidOf ` set xs \<longrightarrow>
        insertItems valid now fid (xs @ b # ys) (st, n) = insertItems valid now fid (xs @ ys) (st, n))
   \<and> (\<not> truthyVal (item.guid it) \<and> \<not> truthy (item.link it) \<and> \<not> truthy (item.title it)
        \<longrightarrow> guidOf it = Str [])"
proof (intro conjI impI)
  assume d: "distinct (map akey (articles st))"
  show "distinct (map akey (articles (fst (stateOf (insertItems valid now fid its (st, n))))))"
    using d by (rule insertItems_distinct)
  have w: "articles (fst (stateOf (catchBranch f sn))) = articles (fst sn)" for sn
    by (cases sn) (auto simp: catchBranch_def updateFeed_def split: call.splits option.splits if_splits)
  show "distinct (map akey (articles (fst (stateOf (refreshFeed valid now result f (st, n))))))"
  proof (cases result)
    case (Failure err)
    then show ?thesis
      using d w [of "(st, n)"]
      by (auto simp: refreshFeed_def updateFeed_def split: call.splits option.splits if_splits)
  next
    case (Success pf)
    let ?loop = "insertItems valid now (feed.ident f) (take 50 (itemsOf pf)) (st, n)"
    have dl: "distinct (map akey (articles (fst (stateOf ?loop))))"
      using d by (rule insertItems_distinct)
    show ?thesis
    proof (cases ?loop)
      case (Threw sn)
      then show ?thesis using dl w [of sn] Success by (simp add: refreshFeed_def)
    next
      case (Done sn)
      then show ?thesis
        using dl w [of sn] Success
        by (auto simp: refreshFeed_def updateFeed_def split: call.splits option.splits if_splits)
    qed
  qed
next
  assume "guidOf b \<in> guidOf ` set xs"
  then show "insertItems valid now fid (xs @ b # ys) (st, n) = insertItems valid now fid (xs @ ys) (st, n)"
    by (rule insertItems_skip_duplicate)
next
  assume "\<not> truthyVal (item.guid it) \<and> \<not> truthy (item.link it) \<and> \<not> truthy (item.title it)"
  then show "guidOf it = Str []"
    by (auto simp: guidOf_def orElse_def orString_def truthy_def split: option.splits)
qed

theorem item_loop_guid_unique_witness:
  "distinct (map akey (articles exampleStore))
   \<and> guidOf blankItem \<in> guidOf ` set [blankItem]
   \<and> \<not> truthyVal (item.guid blankItem) \<and> \<not> truthy (item.link blankItem)
   \<and> \<not> truthy (item.title blankItem)
   \<and> guidOf blankItem = Str []
   \<and> insertItems parsesAsDate 7 1 ([blankItem] @ blankItem # []) (exampleStore, 0)
       = insertItems parsesAsDate 7 1 ([blankItem] @ []) (exampleStore, 0)
   \<and> distinct (map akey (articles (fst (stateOf
         (insertItems parsesAsDate 7 1 [blankItem, blankItem] (exampleStore, 0))))))
   \<and> distinct (map akey (articles (fst (stateOf
         (refreshFeed parsesAsDate 7 (Success blankFeed) exampleFeed (exampleStore, 0))))))"
proof -
  have d: "distinct (map akey (articles exampleStore))" by (simp add: exampleStore_def)
  have m: "guidOf blankItem \<in> guidOf ` set [blankItem]" by simp
  have t: "\<not> truthyVal (item.guid blankItem) \<and> \<not> truthy (item.link blankItem)
           \<and> \<not> truthy (item.title blankItem)"
    by (simp add: blankItem_def truthy_def truthyVal_def)
  show ?thesis
    using d m t
      item_loop_guid_unique [where st = exampleStore and valid = parsesAsDate and now = 7
        and fid = 1 and its = "[blankItem, blankItem]" and n = 0
        and result = "Success blankFeed" and f = exampleFeed and b = blankItem
        and xs = "[blankItem]" and ys = "[]" and it = blankItem]
    by blast
qed

text \<open>
  C8. The health summary lists exactly the feeds whose \<open>errorCount\<close> (a null count reads
  as 0) is at least 3, counts them in \<open>failingFeeds\<close> and counts all feeds in
  \<open>totalFeeds\<close>; only the current count matters. Starting from a count of 0, after two
  failed syncs in a row the count is 2 and the feed is neither listed nor counted; after a
  third the count is 3 and the feed is listed and counted.
\<close>

theorem health_failing_threshold:
  assumes "getFeed st (feed.ident f) = Some f"
    and "distinct (map feed.ident (feeds st))"
    and "orZero (errorCount f) = 0"
  shows "(\<forall>g. g \<in> set (feedsWithErrors (getFeedHealthStats st))
              \<longleftrightarrow> g \<in> set (feeds st) \<and> 3 \<le> orZero (errorCount g))
       \<and> totalFeeds (getFeedHealthStats st) = length (feeds st)
       \<and> failingFeeds (getFeedHealthStats st) = length (feedsWithErrors (getFeedHealthStats st))
       \<and> (let s1 = fst (stateOf (refreshFeed v1 t1 (Failure e1) f (st, n1)));
               f1 = the (getFeed s1 (feed.ident f));
               s2 = fst (stateOf (refreshFeed v2 t2 (Failure e2) f1 (s1, n2)));
               f2 = the (getFeed s2 (feed.ident f));
               s3 = fst (stateOf (refreshFeed v3 t3 (Failure e3) f2 (s2, n3)));
               f3 = the (getFeed s3 (feed.ident f))
           in errorCount f2 = Some 2
            \<and> f2 \<notin> set (feedsWithErrors (getFeedHealthStats s2))
            \<and> failingFeeds (getFeedHealthStats s2) = failingFeeds (getFeedHealthStats st)
            \<and> errorCount f3 = Some 3
            \<and> f3 \<in> set (feedsWithErrors (getFeedHealthStats s3))
            \<and> failingFeeds (getFeedHealthStats s3) = Suc (failingFeeds (getFeedHealthStats st)))"
proof -
  let ?i = "feed.ident f"
  define f1 where "f1 = f\<lparr>errorCount := Some 1\<rparr>"
  define f2 where "f2 = f\<lparr>errorCount := Some 2\<rparr>"
  define f3 where "f3 = f\<lparr>errorCount := Some 3\<rparr>"
  define s1 where "s1 = writeFeed ?i (countFailure f) st"
  define s2 where "s2 = writeFeed ?i (countFailure f1) s1"
  define s3 where "s3 = writeFeed ?i (countFailure f2) s2"
  have ids: "\<And>p s. map feed.ident (feeds (writeFeed ?i p s)) = map feed.ident (feeds s)"
    by (simp add: writeFeed_def o_def)
  have a1: "applyPatch (countFailure f) f = f1"
    using assms(3) by (simp add: countFailure_row f1_def)
  have a2: "applyPatch (countFailure f1) f1 = f2"
    by (simp add: countFailure_row f1_def f2_def orZero_def)
  have a3: "applyPatch (countFailure f2) f2 = f3"
    by (simp add: countFailure_row f2_def f3_def orZero_def)
  have g1: "getFeed s1 ?i = Some f1"
    using getFeed_writeFeed [OF assms(1), of "countFailure f"] by (simp add: s1_def a1)
  have g2: "getFeed s2 ?i = Some f2"
    using getFeed_writeFeed [OF g1, of "countFailure f1"] by (simp add: s2_def a2)
  have g3: "getFeed s3 ?i = Some f3"
    using getFeed_writeFeed [OF g2, of "countFailure f2"] by (simp add: s3_def a3)
  have d1: "distinct (map feed.ident (feeds s1))" using assms(2) by (simp add: s1_def ids)
  have d2: "distinct (map feed.ident (feeds s2))" using d1 by (simp add: s2_def ids)
  have c1: "failingFeeds (getFeedHealthStats s1) = failingFeeds (getFeedHealthStats st)"
    using failing_count_update [OF assms(1,2), of "countFailure f"] assms(3)
    by (simp add: s1_def a1) (simp add: f1_def orZero_def)
  have c2: "failingFeeds (getFeedHealthStats s2) = failingFeeds (getFeedHealthStats s1)"
    using failing_count_update [OF g1 d1, of "countFailure f1"]
    by (simp add: s2_def a2) (simp add: f1_def f2_def orZero_def)
  have c3: "failingFeeds (getFeedHealthStats s3) = Suc (failingFeeds (getFeedHealthStats s2))"
    using failing_count_update [OF g2 d2, of "countFailure f2"]
    by (simp add: s3_def a3) (simp add: f2_def f3_def orZero_def)
  have m2: "f2 \<notin> set (feedsWithErrors (getFeedHealthStats s2))"
    by (simp add: getFeedHealthStats_def f2_def orZero_def Let_def)
  have m3: "f3 \<in> set (feedsWithErrors (getFeedHealthStats s3))"
    using getFeed_mem [OF g3] by (simp add: getFeedHealthStats_def f3_def orZero_def Let_def)
  have i1: "feed.ident f1 = ?i" "feed.ident f2 = ?i" by (simp_all add: f1_def f2_def)
  have r1: "fst (stateOf (refreshFeed v1 t1 (Failure e1) f (st, n1))) = s1"
    using refresh_failure [of f v1 t1 e1 st n1] assms(3) by (simp add: s1_def int4_def)
  have r2: "fst (stateOf (refreshFeed v2 t2 (Failure e2) f1 (s1, n2))) = s2"
    using refresh_failure [of f1 v2 t2 e2 s1 n2]
    by (simp add: s2_def i1) (simp add: f1_def int4_def orZero_def)
  have r3: "fst (stateOf (refreshFeed v3 t3 (Failure e3) f2 (s2, n3))) = s3"
    using refresh_failure [of f2 v3 t3 e3 s2 n3]
    by (simp add: s3_def i1) (simp add: f2_def int4_def orZero_def)
  have "\<forall>g. g \<in> set (feedsWithErrors (getFeedHealthStats st))
              \<longleftrightarrow> g \<in> set (feeds st) \<and> 3 \<le> orZero (errorCount g)"
    by (auto simp: getFeedHealthStats_def Let_def)
  moreover have "totalFeeds (getFeedHealthStats st) = length (feeds st)"
    "failingFeeds (getFeedHealthStats st) = length (feedsWithErrors (getFeedHealthStats st))"
    by (simp_all add: getFeedHealthStats_def Let_def)
  moreover have "errorCount f2 = Some 2" "errorCount f3 = Some 3"
    by (simp_all add: f2_def f3_def)
  ultimately show ?thesis
    using m2 m3 c1 c2 c3 by (simp add: r1 g1 r2 g2 r3 g3 Let_def)
qed

theorem health_failing_threshold_witness:
  "getFeed freshStore 1 = Some freshFeed
   \<and> distinct (map feed.ident (feeds freshStore))
   \<and> orZero (errorCount freshFeed) = 0
   \<and> (let s1 = fst (stateOf (refreshFeed parsesAsDate 1 (Failure []) freshFeed (freshStore, 0)));
          f1 = the (getFeed s1 1);
          s2 = fst (stateOf (refreshFeed parsesAsDate 2 (Failure []) f1 (s1, 0)));
          f2 = the (getFeed s2 1);
          s3 = fst (stateOf (refreshFeed parsesAsDate 3 (Failure []) f2 (s2, 0)));
          f3 = the (getFeed s3 1)
      in errorCount f2 = Some 2
       \<and> f2 \<notin> set (feedsWithErrors (getFeedHealthStats s2))
       \<and> errorCount f3 = Some 3
       \<and> f3 \<in> set (feedsWithErrors (getFeedHealthStats s3)))"
proof -
  have i: "feed.ident freshFeed = 1" by (simp add: freshFeed_def exampleFeed_def)
  have h: "getFeed freshStore (feed.ident freshFeed) = Some freshFeed"
    by (simp add: getFeed_def freshStore_def)
  have g: "getFeed freshStore 1 = Some freshFeed" using h unfolding i .
  have d: "distinct (map feed.ident (feeds freshStore))" by (simp add: freshStore_def)
  have z: "orZero (errorCount freshFeed) = 0" by (simp add: freshFeed_def orZero_def)
  have "let s1 = fst (stateOf (refreshFeed parsesAsDate 1 (Failure []) freshFeed (freshStore, 0)));
          f1 = the (getFeed s1 1);
          s2 = fst (stateOf (refreshFeed parsesAsDate 2 (Failure []) f1 (s1, 0)));
          f2 = the (getFeed s2 1);
          s3 = fst (stateOf (refreshFeed parsesAsDate 3 (Failure []) f2 (s2, 0)));
          f3 = the (getFeed s3 1)
      in errorCount f2 = Some 2
       \<and> f2 \<notin> set (feedsWithErrors (getFeedHealthStats s2))
       \<and> errorCount f3 = Some 3
       \<and> f3 \<in> set (feedsWithErrors (getFeedHealthStats s3))"
    using health_failing_threshold [OF h d z, where ?v1.0 = parsesAsDate and ?t1.0 = 1
        and ?e1.0 = "[]" and ?n1.0 = 0 and ?v2.0 = parsesAsDate and ?t2.0 = 2 and ?e2.0 = "[]"
        and ?n2.0 = 0 and ?v3.0 = parsesAsDate and ?t3.0 = 3 and ?e3.0 = "[]" and ?n3.0 = 0]
    unfolding i Let_def by blast
  with g d z show ?thesis by blast
qed


section \<open>Claim on feed discovery\<close>

text \<open>
  C2. On the page of the specification's example, whose link element declares
  \<^verbatim>\<open>title="Blog"\<close>, the scan yields one candidate with the resolved URL and the type RSS,
  but its title is the default \<^verbatim>\<open>"RSS Feed"\<close>, not \<^verbatim>\<open>"Blog"\<close>, in either order of the
  attributes: in both patterns the greedy \<^verbatim>\<open>[^>]*\<close> in front of the optional title group
  takes the rest of the tag, so the group never takes part in the match.
\<close>

theorem discover_declared_title_lost:
  "linkCandidates resolveAtExample typeFirstPage
     = Done [\<lparr>url = str ''https://example.com/feed.xml'', title = str ''RSS Feed'', type = str ''RSS''\<rparr>]
   \<and> linkCandidates resolveAtExample hrefFirstPage
     = Done [\<lparr>url = str ''https://example.com/feed.xml'', title = str ''RSS Feed'', type = str ''RSS''\<rparr>]"
  by code_simp


section \<open>Claim on the URL normaliser\<close>

text \<open>
  C9. For every input string, \<open>normalizeUrl\<close> returns the input stripped of white space
  and zero-width spaces at both ends, with \<^verbatim>\<open>https://\<close> in front exactly when the stripped
  string does not start with \<^verbatim>\<open>http://\<close> or \<^verbatim>\<open>https://\<close> in any case of the letters; a
  prefix that is present is left as it is. The three examples of the specification hold.
  The function is total: no input makes it fail.
\<close>

theorem normalizeUrl_strips_and_prefixes:
  "normalizeUrl s =
     (let t = stripBoth urlSpace s
      in if startsWithCI t (str ''http://'') \<or> startsWithCI t (str ''https://'')
         then t else str ''https://'' @ t)
   \<and> normalizeUrl (str ''example.com'') = str ''https://example.com''
   \<and> normalizeUrl (str '' https://foo.com'' @ [8203, 32]) = str ''https://foo.com''
   \<and> normalizeUrl (str ''HTTP://x.com'') = str ''HTTP://x.com''"
  using normalizeUrl_general [of s] normalizeUrl_bare_host normalizeUrl_padded
    normalizeUrl_upper_scheme
  by blast


section \<open>Claim on the summary\<close>

text \<open>
  C5, as stated, fails on the code. A plain text of two code units with a leading space is
  not returned verbatim: the code trims it. A plain text of 250 code units whose only white
  space is a tab at index 100 is not cut at that white space: the code looks for the
  space character U+0020 only, finds none and cuts at 200.
\<close>

theorem extractSummary_verbatim_counterexample:
  "length padded \<le> 200
   \<and> stripTags padded = padded
   \<and> extractSummary (Some padded) 200 = Some (str ''a'')
   \<and> extractSummary (Some padded) 200 \<noteq> Some padded
   \<and> length tabbed = 250
   \<and> stripTags tabbed = tabbed
   \<and> isWhiteSpace (tabbed ! 100)
   \<and> extractSummary (Some tabbed) 200 = Some (take 200 tabbed @ str ''...'')
   \<and> extractSummary (Some tabbed) 200 \<noteq> Some (take 100 tabbed @ str ''...'')"
proof -
  have p: "extractSummary (Some padded) 200 = Some (str ''a'')"
    by (simp add: extractSummary_text padded_def str_def trim_def isWhiteSpace_def)
  have n: "32 \<notin> set (take (Suc 200) tabbed)"
    by (auto simp: tabbed_def dest: in_set_takeD)
  have ne: "tabbed \<noteq> []" by (simp add: tabbed_def)
  have len: "\<not> length tabbed \<le> 200" by (simp add: tabbed_def)
  have t: "extractSummary (Some tabbed) 200 = Some (take 200 tabbed @ str ''...'')"
    using lastIndexOf_none [OF n] len
    by (simp add: extractSummary_text [OF ne] tabbed_text Let_def)
  have d: "take 200 tabbed \<noteq> take 100 tabbed"
    using arg_cong [of "take 200 tabbed" "take 100 tabbed" length] by (auto simp: tabbed_def)
  have "stripTags tabbed = tabbed" by (rule stripTags_plain) (auto simp: tabbed_def)
  moreover have "isWhiteSpace (tabbed ! 100)"
    by (simp add: tabbed_def nth_append isWhiteSpace_def)
  moreover have "length padded \<le> 200" "stripTags padded = padded" "str ''a'' \<noteq> padded"
    by (simp_all add: padded_def str_def)
  moreover have "length tabbed = 250" by (simp add: tabbed_def)
  ultimately show ?thesis using p t d by simp
qed

text \<open>
  C5, amended. An undefined or empty text gives null. Otherwise the tags are removed and
  the result is trimmed of white space at both ends. A trimmed text of at most 200 code
  units is returned as it is. A longer one is cut and \<^verbatim>\<open>...\<close> is appended: at the last
  space character (U+0020) among the indices 1 to 200 when there is one, and at 200
  otherwise.
\<close>

theorem extractSummary_trim_and_cut:
  "extractSummary None 200 = None
   \<and> extractSummary (Some []) 200 = None
   \<and> (c \<noteq> [] \<longrightarrow>
       (let text = trim (stripTags c) in
          (length text \<le> 200 \<longrightarrow> extractSummary (Some c) 200 = Some text)
        \<and> (200 < length text \<longrightarrow>
             (\<exists>k. extractSummary (Some c) 200 = Some (take k text @ str ''...'')
                \<and> 0 < k \<and> k \<le> 200
                \<and> (k = 200 \<and> (\<forall>j. 0 < j \<and> j \<le> 200 \<longrightarrow> text ! j \<noteq> 32)
                    \<or> text ! k = 32 \<and> (\<forall>j. k < j \<and> j \<le> 200 \<longrightarrow> text ! j \<noteq> 32))))))"
proof -
  have a: "extractSummary None 200 = None" "extractSummary (Some []) 200 = None"
    by (simp_all add: extractSummary_def truthy_def)
  have b: "extractSummary (Some c) 200 = Some (trim (stripTags c))"
    if "c \<noteq> []" "length (trim (stripTags c)) \<le> 200"
    using that by (simp add: extractSummary_text Let_def)
  have l: "\<exists>k. extractSummary (Some c) 200 = Some (take k body @ str ''...'')
                \<and> 0 < k \<and> k \<le> 200
                \<and> (k = 200 \<and> (\<forall>j. 0 < j \<and> j \<le> 200 \<longrightarrow> body ! j \<noteq> 32)
                    \<or> body ! k = 32 \<and> (\<forall>j. k < j \<and> j \<le> 200 \<longrightarrow> body ! j \<noteq> 32))"
    if c: "c \<noteq> []" and bd: "body = trim (stripTags c)" and long: "200 < length body" for body
  proof -
    have e: "extractSummary (Some c) 200 =
        Some (take (if lastIndexOf body 32 200 > 0 then nat (lastIndexOf body 32 200) else 200) body
              @ str ''...'')"
      using c long by (simp add: extractSummary_text Let_def bd)
    show ?thesis
    proof (cases "32 \<in> set (take (Suc 200) body)")
      case False
      then have none: "lastIndexOf body 32 200 = - 1" by (rule lastIndexOf_none)
      have "body ! j \<noteq> 32" if "j \<le> 200" for j
      proof
        assume "body ! j = 32"
        moreover have "j < length (take (Suc 200) body)" using that long by simp
        ultimately have "32 \<in> set (take (Suc 200) body)"
          by (metis nth_mem nth_take less_Suc_eq_le that)
        then show False using False by simp
      qed
      then show ?thesis using e none by auto
    next
      case True
      then obtain k where k: "lastIndexOf body 32 200 = int k" "k \<le> 200" "k < length body"
          "body ! k = 32" "\<forall>j. k < j \<and> j \<le> 200 \<and> j < length body \<longrightarrow> body ! j \<noteq> 32"
        using lastIndexOf_found [of 32 200 body] by blast
      show ?thesis
      proof (cases "k = 0")
        case True
        then have "extractSummary (Some c) 200 = Some (take 200 body @ str ''...'')"
          using e k(1) by simp
        moreover have "\<forall>j. 0 < j \<and> j \<le> 200 \<longrightarrow> body ! j \<noteq> 32"
          using k(5) True long by auto
        ultimately show ?thesis by auto
      next
        case False
        then have "extractSummary (Some c) 200 = Some (take k body @ str ''...'')"
          using e k(1) by simp
        moreover have "\<forall>j. k < j \<and> j \<le> 200 \<longrightarrow> body ! j \<noteq> 32"
          using k(5) long by auto
        ultimately show ?thesis using False k(2,4) by auto
      qed
    qed
  qed
  show ?thesis
    using a b l by (simp add: Let_def)
qed

theorem extractSummary_trim_and_cut_witness:
  "shortDoc \<noteq> []
   \<and> trim (stripTags shortDoc) = str ''Hi there''
   \<and> length (str ''Hi there'') \<le> 200
   \<and> extractSummary (Some shortDoc) 200 = Some (str ''Hi there'')
   \<and> longDoc \<noteq> []
   \<and> 200 < length (trim (stripTags longDoc))
   \<and> (\<exists>k. extractSummary (Some longDoc) 200 = Some (take k (trim (stripTags longDoc)) @ str ''...'')
          \<and> 0 < k \<and> k \<le> 200)"
proof -
  have s: "shortDoc \<noteq> []" by (simp add: shortDoc_def str_def)
  have sl: "length (trim (stripTags shortDoc)) \<le> 200" by (simp add: shortDoc_text str_def)
  have g: "longDoc \<noteq> []" by (simp add: longDoc_def)
  have gl: "200 < length (trim (stripTags longDoc))" by (simp add: longDoc_text) (simp add: longDoc_def)
  have r1: "extractSummary (Some shortDoc) 200 = Some (trim (stripTags shortDoc))"
    using extractSummary_trim_and_cut [of shortDoc] s sl by (simp add: Let_def)
  have r2: "\<exists>k. extractSummary (Some longDoc) 200 = Some (take k (trim (stripTags longDoc)) @ str ''...'')
          \<and> 0 < k \<and> k \<le> 200"
    using extractSummary_trim_and_cut [of longDoc] g gl by (simp add: Let_def) blast
  have "length (str ''Hi there'') \<le> 200" by (simp add: str_def)
  then show ?thesis using s g gl r1 r2 shortDoc_text by simp
qed

section \<open>Claims on the bounded concurrency executor\<close>




text \<open>
  C1, as stated, fails on the code: the executor is fail-fast. Two items under the limit 1:
  the operation of the first item is started and rejects; the race the function awaits is
  rejected, the function resumes by throwing, and its promise is rejected while the second
  item has not been admitted. In that state the function cannot resume and no operation of
  the second item can start: it is never admitted.
\<close>

theorem mapConcurrency_rejection_counterexample:
  "rejectingRun = Some \<lparr>todo = [8], tasks = [(7, Rejected)], executing = [0], results = [],
                        main = Thrown\<rparr>
   \<and> step 1 Resume \<lparr>todo = [8 :: nat], tasks = [(7 :: nat, Rejected :: nat status)],
                     executing = [0], results = [], main = Thrown\<rparr> = None
   \<and> step 1 (Start 1) \<lparr>todo = [8 :: nat], tasks = [(7 :: nat, Rejected :: nat status)],
                        executing = [0], results = [], main = Thrown\<rparr> = None"
  by (simp add: rejectingRun_def exec_eval)

text \<open>
  C1, amended. In every state the executor reaches, by any schedule, from a call with any
  items and any integer limit: if an operation has rejected in the schedule, the function has
  not returned its results; if it has returned, every item was admitted and every operation
  has fulfilled; and once the function has thrown it stays so whatever happens afterwards,
  with the same items remaining and no item admitted.
\<close>

theorem mapConcurrency_fail_fast:
  assumes "run limit evs (mapConcurrency work limit) = Some s"
  shows "(\<forall>i rs. Reject i \<in> set evs \<longrightarrow> main s \<noteq> Returned rs)
       \<and> (\<forall>rs. main s = Returned rs \<longrightarrow>
            map fst (tasks s) = work \<and> (\<forall>t \<in> set (tasks s). isFulfilled (snd t)))
       \<and> (main s = Thrown \<longrightarrow>
            (\<forall>evs' s'. run limit evs' s = Some s' \<longrightarrow>
               main s' = Thrown \<and> todo s' = todo s \<and> length (tasks s') = length (tasks s)))"
proof -
  have inv: "Inv limit work s" using mapConcurrency_Inv assms by (rule run_Inv)
  have a: "main s \<noteq> Returned rs" if "Reject i \<in> set evs" for i rs
    using inv Reject_in_run [OF assms that] by (rule rejected_not_Returned)
  have b: "map fst (tasks s) = work \<and> (\<forall>t \<in> set (tasks s). isFulfilled (snd t))"
    if "main s = Returned rs" for rs
    using returned_all_done [OF inv that] by blast
  have c: "main s' = Thrown \<and> todo s' = todo s \<and> length (tasks s') = length (tasks s)"
    if "main s = Thrown" "run limit evs' s = Some s'" for evs' s'
    using that by (rule thrown_stays)
  show ?thesis using a b c by blast
qed

theorem mapConcurrency_fail_fast_witness:
  "run 2 failingTrace threeItems = Some failedResult
   \<and> Reject 0 \<in> set failingTrace
   \<and> main failedResult = Thrown
   \<and> main failedResult \<noteq> Returned []
   \<and> run 2 [Fulfil 1 5] failedResult
       = Some (failedResult\<lparr>tasks := [(7, Rejected), (8, Fulfilled 5)],
                            executing := [0], results := [5]\<rparr>)
   \<and> todo (failedResult\<lparr>tasks := [(7, Rejected), (8, Fulfilled 5)],
                         executing := [0], results := [5]\<rparr>) = todo failedResult
   \<and> run 2 fullTrace threeItems = Some fullResult
   \<and> main fullResult = Returned [5, 6, 4]
   \<and> map fst (tasks fullResult) = [7, 8, 9]"
proof -
  have r: "run 2 failingTrace (mapConcurrency [7, 8, 9] 2) = Some failedResult"
    using failingTrace_runs by (simp only: threeItems_def)
  have j: "Reject 0 \<in> set failingTrace" by (simp add: failingTrace_def)
  have t: "main failedResult = Thrown" by (simp add: failedResult_def)
  have r2: "run 2 fullTrace (mapConcurrency [7, 8, 9] 2) = Some fullResult"
    using fullTrace_runs by (simp only: threeItems_def)
  have m: "main fullResult = Returned [5, 6, 4]" by (simp add: fullResult_def)
  show ?thesis
    using mapConcurrency_fail_fast [OF r] mapConcurrency_fail_fast [OF r2]
      j t m failed_continues failingTrace_runs fullTrace_runs
    by blast
qed


end
